theory Spec2Isabelle
  imports Main "HOL-Library.Word"
begin

section \<open>Values, panics and results\<close>

text \<open>
  The Go library moves values of the empty interface \<^verbatim>\<open>types.T\<close> through a chain of
  stages. The element type is the type variable \<open>'a\<close>; where the code compares an
  element with \<^verbatim>\<open>nil\<close> the element type is an \<open>option\<close> whose \<open>None\<close> is
  \<^verbatim>\<open>nil\<close>. Size hints and counters (\<^verbatim>\<open>int64\<close>) are integers; the one piece of
  arithmetic on a size hint, the subtraction in Skip, wraps around as \<^verbatim>\<open>int64\<close> does
  (\<open>wrap64\<close>). A counter goes up by one for each element a stage accepts. The
  endpoints of the range source, whose subtraction wraps around as well, are 64-bit
  words.

  A Go panic is a value of type \<open>error\<close>; a method that can panic returns
  \<open>error + 'x\<close>, and \<open>bindR\<close> is the sequencing of two statements of which the
  first can panic.
\<close>

datatype error =
  IndexOutOfRange | NilMapAssign | TypeAssertion | CallerPanic | MakeSliceCapOutOfRange

definition bindR :: "error + 'x \<Rightarrow> ('x \<Rightarrow> error + 'y) \<Rightarrow> error + 'y" where
  "bindR r f = (case r of Inl e \<Rightarrow> Inl e | Inr x \<Rightarrow> f x)"

definition unkonwnSize :: int where
  "unkonwnSize = - 1"

definition wrap64 :: "int \<Rightarrow> int" where
  "wrap64 x = sint (word_of_int x :: 64 word)"

text \<open>
  \<^verbatim>\<open>make([]types.T, 0, cap)\<close> belongs to the Go runtime: it panics when the capacity is
  negative or when the memory for \<open>cap\<close> interface values, 16 bytes each, exceeds the
  runtime's \<^verbatim>\<open>maxAlloc\<close>, which is \<open>2 ^ 48\<close> bytes on the 64-bit platforms. The new slice
  is empty; its capacity has no other effect. Running out of memory below that limit
  is not modelled.
\<close>

definition maxAlloc :: int where
  "maxAlloc = 2 ^ 48"

definition makeSlice :: "int \<Rightarrow> error + 'a list" where
  "makeSlice cap =
     (if cap < 0 \<or> 16 * cap > maxAlloc then Inl MakeSliceCapOutOfRange else Inr [])"

section \<open>Element sources (iterator.go)\<close>

text \<open>
  The slice iterator (\<^verbatim>\<open>base\<close> with \<^verbatim>\<open>current\<close> and \<^verbatim>\<open>size\<close>, and the elements) and
  the seed iterator (\<^verbatim>\<open>element\<close>, \<^verbatim>\<open>operator\<close>, \<^verbatim>\<open>first\<close>). A method that moves the
  cursor returns the new state of the iterator object. Indexing the slice out of
  range panics.
\<close>

datatype 'a iterator =
    SliceIterator int int "'a list"
  | SeedIt 'a "'a \<Rightarrow> 'a" bool

definition it :: "'a list \<Rightarrow> 'a iterator" where
  "it elements = SliceIterator 0 (int (length elements)) elements"

definition withSeed :: "'a \<Rightarrow> ('a \<Rightarrow> 'a) \<Rightarrow> 'a iterator" where
  "withSeed seed f = SeedIt seed f True"

fun GetSizeIfKnown :: "'a iterator \<Rightarrow> int" where
  "GetSizeIfKnown (SliceIterator current sz elements) = sz"
| "GetSizeIfKnown (SeedIt element operator first) = unkonwnSize"

fun HasNext :: "'a iterator \<Rightarrow> bool" where
  "HasNext (SliceIterator current sz elements) = (current < sz)"
| "HasNext (SeedIt element operator first) = True"

fun Next :: "'a iterator \<Rightarrow> error + ('a \<times> 'a iterator)" where
  "Next (SliceIterator current sz elements) =
     (if 0 \<le> current \<and> current < int (length elements)
      then Inr (elements ! nat current, SliceIterator (current + 1) sz elements)
      else Inl IndexOutOfRange)"
| "Next (SeedIt element operator first) =
     (if first then Inr (element, SeedIt element operator False)
      else Inr (operator element, SeedIt (operator element) operator False))"

subsection \<open>The range source and its endpoints\<close>

text \<open>
  \<^verbatim>\<open>epInt\<close> is a Go \<^verbatim>\<open>int\<close>, 64 bits wide on the usual platforms; \<open>sint\<close> reads
  the word as the signed number Go sees. \<^verbatim>\<open>CompareTo\<close> is the wrapping difference.
\<close>

type_synonym epInt = "64 word"

record rangeIt =
  range_from :: epInt
  range_to :: epInt
  range_step :: "64 word"
  range_next :: epInt

definition withRange :: "epInt \<Rightarrow> epInt \<Rightarrow> 64 word \<Rightarrow> rangeIt" where
  "withRange fromInclude toExclude step =
     \<lparr>range_from = fromInclude, range_to = toExclude, range_step = step,
      range_next = fromInclude\<rparr>"

definition epInt_CompareTo :: "epInt \<Rightarrow> epInt \<Rightarrow> 64 word" where
  "epInt_CompareTo m other = m - other"

definition epInt_Add :: "epInt \<Rightarrow> 64 word \<Rightarrow> epInt" where
  "epInt_Add m step = m + step"

definition rangeIt_HasNext :: "rangeIt \<Rightarrow> bool" where
  "rangeIt_HasNext r =
     (if 0 \<le> sint (range_step r)
      then sint (epInt_CompareTo (range_next r) (range_to r)) < 0
      else sint (epInt_CompareTo (range_next r) (range_to r)) > 0)"

definition rangeIt_Next :: "rangeIt \<Rightarrow> epInt \<times> rangeIt" where
  "rangeIt_Next r =
     (range_next r, r\<lparr>range_next := epInt_Add (range_next r) (range_step r)\<rparr>)"

subsection \<open>Sorting (Sortable and sort.Sort)\<close>

text \<open>
  \<^verbatim>\<open>Sortable.Less\<close> is \<open>Cmp (List[i], List[j]) < 0\<close>. \<^verbatim>\<open>sort.Sort\<close> belongs to
  the Go standard library, not to this repository, and which algorithm it runs
  depends on the length of the slice and on the version of Go. It is a parameter
  \<open>sort_Sort\<close> of the Sorted operation: a function from the \<^verbatim>\<open>Less\<close> of the
  \<^verbatim>\<open>Sortable\<close> and its \<^verbatim>\<open>List\<close> to the list after sorting. What the library promises
  is \<open>sortContract\<close>: the result has the elements of the list, each as often as the
  list has it (the library only swaps), and it is ascending under \<^verbatim>\<open>Less\<close> whenever
  \<^verbatim>\<open>Less\<close> is a strict weak ordering; which of two elements that \<^verbatim>\<open>Less\<close> does not
  tell apart comes first is not promised.
\<close>

definition Less :: "('a \<Rightarrow> 'a \<Rightarrow> int) \<Rightarrow> 'a \<Rightarrow> 'a \<Rightarrow> bool" where
  "Less Cmp x y = (Cmp x y < 0)"

definition strictWeakOrder :: "('a \<Rightarrow> 'a \<Rightarrow> bool) \<Rightarrow> bool" where
  "strictWeakOrder lt =
     ((\<forall>x y. lt x y \<longrightarrow> \<not> lt y x) \<and>
      (\<forall>x y z. \<not> lt x y \<longrightarrow> \<not> lt y z \<longrightarrow> \<not> lt x z))"

definition sortContract :: "(('a \<Rightarrow> 'a \<Rightarrow> bool) \<Rightarrow> 'a list \<Rightarrow> 'a list) \<Rightarrow> bool" where
  "sortContract sort_Sort =
     (\<forall>lt xs.
        (\<forall>z. count_list (sort_Sort lt xs) z = count_list xs z) \<and>
        (strictWeakOrder lt \<longrightarrow> sorted_wrt (\<lambda>x y. \<not> lt y x) (sort_Sort lt xs)))"

text \<open>
  The insertion sort that the library runs on short slices: each element in turn is
  swapped towards the front while \<^verbatim>\<open>Less\<close> holds against its left neighbour.
  \<open>insertBack\<close> works on the already sorted prefix held in reverse.
\<close>

fun insertBack :: "('a \<Rightarrow> 'a \<Rightarrow> bool) \<Rightarrow> 'a \<Rightarrow> 'a list \<Rightarrow> 'a list" where
  "insertBack lt x [] = [x]"
| "insertBack lt x (y # ys) =
     (if lt x y then y # insertBack lt x ys else x # y # ys)"

definition insertionSort :: "('a \<Rightarrow> 'a \<Rightarrow> bool) \<Rightarrow> 'a list \<Rightarrow> 'a list" where
  "insertionSort lt xs = rev (foldl (\<lambda>pre x. insertBack lt x pre) [] xs)"

text \<open>
  A comparator is three-way when the signs of \<open>Cmp x y\<close> and \<open>Cmp y x\<close> are opposite
  and "not greater" is transitive.
\<close>

definition threeWay :: "('a \<Rightarrow> 'a \<Rightarrow> int) \<Rightarrow> bool" where
  "threeWay Cmp =
     ((\<forall>x y. (Cmp x y < 0) = (Cmp y x > 0)) \<and>
      (\<forall>x y z. Cmp x y \<le> 0 \<longrightarrow> Cmp y z \<le> 0 \<longrightarrow> Cmp x z \<le> 0))"

definition IntComparator :: "int \<Rightarrow> int \<Rightarrow> int" where
  "IntComparator left right = (if left > right then 1 else if left < right then - 1 else 0)"

section \<open>Stages (stage.go)\<close>

text \<open>
  A \<^verbatim>\<open>baseStage\<close> holds the four functions \<^verbatim>\<open>begin\<close>, \<^verbatim>\<open>action\<close>, \<^verbatim>\<open>canFinish\<close> and
  \<^verbatim>\<open>end\<close>. The closures of a terminal stage read and write the local variables of
  the terminal operation that made them; here they are functions on the value
  \<open>'t\<close> of those variables; \<^verbatim>\<open>begin\<close> and \<^verbatim>\<open>action\<close> run code that can panic. An
  \<^verbatim>\<open>option\<close> overrides one field.
\<close>

record ('a, 't) baseStage =
  beginFn :: "int \<Rightarrow> 't \<Rightarrow> error + 't"
  actionFn :: "'a \<Rightarrow> 't \<Rightarrow> error + 't"
  canFinishFn :: "'t \<Rightarrow> bool"
  endFn :: "'t \<Rightarrow> 't"

definition opt_begin ::
  "(int \<Rightarrow> 't \<Rightarrow> error + 't) \<Rightarrow> ('a, 't) baseStage \<Rightarrow> ('a, 't) baseStage" where
  "opt_begin onBegin b = b\<lparr>beginFn := onBegin\<rparr>"

definition opt_canFinish :: "('t \<Rightarrow> bool) \<Rightarrow> ('a, 't) baseStage \<Rightarrow> ('a, 't) baseStage" where
  "opt_canFinish judge b = b\<lparr>canFinishFn := judge\<rparr>"

definition opt_action ::
  "('a \<Rightarrow> 't \<Rightarrow> error + 't) \<Rightarrow> ('a, 't) baseStage \<Rightarrow> ('a, 't) baseStage" where
  "opt_action onAction b = b\<lparr>actionFn := onAction\<rparr>"

definition opt_end :: "('t \<Rightarrow> 't) \<Rightarrow> ('a, 't) baseStage \<Rightarrow> ('a, 't) baseStage" where
  "opt_end onEnd b = b\<lparr>endFn := onEnd\<rparr>"

definition defaultTerminalStage :: "('a \<Rightarrow> 't \<Rightarrow> error + 't) \<Rightarrow> ('a, 't) baseStage" where
  "defaultTerminalStage action =
     \<lparr>beginFn = (\<lambda>sz vars. Inr vars), actionFn = action,
      canFinishFn = (\<lambda>vars. False), endFn = (\<lambda>vars. vars)\<rparr>"

definition newTerminalStage ::
  "('a \<Rightarrow> 't \<Rightarrow> error + 't) \<Rightarrow> (('a, 't) baseStage \<Rightarrow> ('a, 't) baseStage) list
     \<Rightarrow> ('a, 't) baseStage" where
  "newTerminalStage action opt = foldl (\<lambda>s ov. ov s) (defaultTerminalStage action) opt"

text \<open>
  A stage object is the closure record together with the current value of the
  variables its closures captured. The terminal stage is a \<open>baseStage\<close> with the
  variables of the terminal operation. Each chained stage made by
  \<^verbatim>\<open>newChainedStage\<close> in impl.go is one constructor: it carries the arguments of the
  operation, the variables declared in its \<^verbatim>\<open>wrap\<close> closure (\<^verbatim>\<open>set\<close>, \<^verbatim>\<open>list\<close>,
  \<^verbatim>\<open>count\<close>) and the downstream stage \<^verbatim>\<open>down\<close>. A method of a chained stage that has
  no override is the downstream's method (\<^verbatim>\<open>defaultChainedStage\<close>).

  The seen-set of Distinct is a Go map that is \<^verbatim>\<open>nil\<close> (\<open>None\<close>) until Begin makes it.
  A \<^verbatim>\<open>nil\<close> slice and an empty one behave alike under \<^verbatim>\<open>append\<close> and \<^verbatim>\<open>len\<close>, so the
  buffer of Sorted is a list; the Sorted stage also holds the library's sort it calls.
  The consumer of Peek has no result: it is a function
  on the state \<open>'w\<close> of whatever it writes to. The stream that FlatMap's function
  returns is taken by the finite sequence of elements that its ForEach hands over.
\<close>

datatype ('a, 'w, 't) stage =
    TerminalStage "('a, 't) baseStage" 't
  | FilterStage "'a \<Rightarrow> bool" "('a, 'w, 't) stage"
  | MapStage "'a \<Rightarrow> 'a" "('a, 'w, 't) stage"
  | FlatMapStage "'a \<Rightarrow> 'a list" "('a, 'w, 't) stage"
  | PeekStage "'a \<Rightarrow> 'w \<Rightarrow> 'w" 'w "('a, 'w, 't) stage"
  | DistinctStage "'a \<Rightarrow> int" "int set option" "('a, 'w, 't) stage"
  | SortedStage "('a \<Rightarrow> 'a \<Rightarrow> bool) \<Rightarrow> 'a list \<Rightarrow> 'a list" "'a \<Rightarrow> 'a \<Rightarrow> int" "'a list"
      "('a, 'w, 't) stage"
  | LimitStage int int "('a, 'w, 't) stage"
  | SkipStage int int "('a, 'w, 't) stage"

primrec depth :: "('a, 'w, 't) stage \<Rightarrow> nat" where
  "depth (TerminalStage b vars) = 0"
| "depth (FilterStage test down) = Suc (depth down)"
| "depth (MapStage f down) = Suc (depth down)"
| "depth (FlatMapStage flatten down) = Suc (depth down)"
| "depth (PeekStage consumer w down) = Suc (depth down)"
| "depth (DistinctStage distincter seen down) = Suc (depth down)"
| "depth (SortedStage sort_Sort comparator list down) = Suc (depth down)"
| "depth (LimitStage maxSize count down) = Suc (depth down)"
| "depth (SkipStage n count down) = Suc (depth down)"

text \<open>The variables of the terminal operation, at the far end of the chain.\<close>

primrec terminalVars :: "('a, 'w, 't) stage \<Rightarrow> 't" where
  "terminalVars (TerminalStage b vars) = vars"
| "terminalVars (FilterStage test down) = terminalVars down"
| "terminalVars (MapStage f down) = terminalVars down"
| "terminalVars (FlatMapStage flatten down) = terminalVars down"
| "terminalVars (PeekStage consumer w down) = terminalVars down"
| "terminalVars (DistinctStage distincter seen down) = terminalVars down"
| "terminalVars (SortedStage sort_Sort comparator list down) = terminalVars down"
| "terminalVars (LimitStage maxSize count down) = terminalVars down"
| "terminalVars (SkipStage n count down) = terminalVars down"

subsection \<open>Begin and CanFinish\<close>

text \<open>
  \<open>bindR\<close> sequences two statements of which the first can panic. Begin of the Sorted
  stage makes its buffer with \<^verbatim>\<open>make\<close> when the size hint is positive, and Begin of a
  terminal stage runs the \<^verbatim>\<open>begin\<close> closure of the terminal operation; both can panic.
\<close>

lemma bindR_simps [simp]:
  "bindR (Inl e) f = Inl e"
  "bindR (Inr x) f = f x"
  by (simp_all add: bindR_def)

lemma bindR_cong [fundef_cong]:
  "r = r' \<Longrightarrow> (\<And>x. r' = Inr x \<Longrightarrow> f x = f' x) \<Longrightarrow> bindR r f = bindR r' f'"
  by (cases r') (simp_all add: bindR_def)

lemma bindR_Inr_iff:
  "(bindR r f = Inr y) = (\<exists>x. r = Inr x \<and> f x = Inr y)"
  by (cases r) simp_all

primrec Begin :: "('a, 'w, 't) stage \<Rightarrow> int \<Rightarrow> error + ('a, 'w, 't) stage" where
  "Begin (TerminalStage b vars) sz =
     bindR (beginFn b sz vars) (\<lambda>vars'. Inr (TerminalStage b vars'))"
| "Begin (FilterStage test down) sz =
     bindR (Begin down unkonwnSize) (\<lambda>d. Inr (FilterStage test d))"
| "Begin (MapStage f down) sz = bindR (Begin down sz) (\<lambda>d. Inr (MapStage f d))"
| "Begin (FlatMapStage flatten down) sz =
     bindR (Begin down unkonwnSize) (\<lambda>d. Inr (FlatMapStage flatten d))"
| "Begin (PeekStage consumer w down) sz =
     bindR (Begin down sz) (\<lambda>d. Inr (PeekStage consumer w d))"
| "Begin (DistinctStage distincter seen down) sz =
     bindR (Begin down unkonwnSize) (\<lambda>d. Inr (DistinctStage distincter (Some {}) d))"
| "Begin (SortedStage sort_Sort comparator list down) sz =
     bindR (if sz > 0 then makeSlice sz else Inr [])
       (\<lambda>list'. bindR (Begin down sz) (\<lambda>d. Inr (SortedStage sort_Sort comparator list' d)))"
| "Begin (LimitStage maxSize count down) sz =
     bindR (Begin down (if sz > 0 \<and> sz > maxSize then maxSize else sz))
       (\<lambda>d. Inr (LimitStage maxSize count d))"
| "Begin (SkipStage n count down) sz =
     bindR (Begin down
              (if sz > 0 then (if wrap64 (sz - n) < 0 then 0 else wrap64 (sz - n)) else sz))
       (\<lambda>d. Inr (SkipStage n count d))"

primrec CanFinish :: "('a, 'w, 't) stage \<Rightarrow> bool" where
  "CanFinish (TerminalStage b vars) = canFinishFn b vars"
| "CanFinish (FilterStage test down) = CanFinish down"
| "CanFinish (MapStage f down) = CanFinish down"
| "CanFinish (FlatMapStage flatten down) = CanFinish down"
| "CanFinish (PeekStage consumer w down) = CanFinish down"
| "CanFinish (DistinctStage distincter seen down) = CanFinish down"
| "CanFinish (SortedStage sort_Sort comparator list down) = CanFinish down"
| "CanFinish (LimitStage maxSize count down) = (count \<ge> maxSize)"
| "CanFinish (SkipStage n count down) = CanFinish down"

subsection \<open>Accept\<close>

text \<open>
  \<open>Accept\<close> is the \<^verbatim>\<open>action\<close> of each stage. \<open>AcceptEach\<close> is
  \<^verbatim>\<open>ss.ForEach(down.Accept)\<close> in FlatMap: the elements of the nested stream go to
  the downstream stage one after the other. Writing into the \<^verbatim>\<open>nil\<close> map of a
  Distinct stage that has not begun panics.
\<close>

function Accept :: "('a, 'w, 't) stage \<Rightarrow> 'a \<Rightarrow> error + ('a, 'w, 't) stage"
  and AcceptEach :: "('a, 'w, 't) stage \<Rightarrow> 'a list \<Rightarrow> error + ('a, 'w, 't) stage" where
  "Accept (TerminalStage b vars) t =
     bindR (actionFn b t vars) (\<lambda>vars'. Inr (TerminalStage b vars'))"
| "Accept (FilterStage test down) t =
     (if test t then bindR (Accept down t) (\<lambda>d. Inr (FilterStage test d))
      else Inr (FilterStage test down))"
| "Accept (MapStage f down) t =
     bindR (Accept down (f t)) (\<lambda>d. Inr (MapStage f d))"
| "Accept (FlatMapStage flatten down) t =
     bindR (AcceptEach down (flatten t)) (\<lambda>d. Inr (FlatMapStage flatten d))"
| "Accept (PeekStage consumer w down) t =
     bindR (Accept down t) (\<lambda>d. Inr (PeekStage consumer (consumer t w) d))"
| "Accept (DistinctStage distincter None down) t = Inl NilMapAssign"
| "Accept (DistinctStage distincter (Some keys) down) t =
     (if distincter t \<notin> keys
      then bindR (Accept down t)
             (\<lambda>d. Inr (DistinctStage distincter (Some (insert (distincter t) keys)) d))
      else Inr (DistinctStage distincter (Some keys) down))"
| "Accept (SortedStage sort_Sort comparator list down) t =
     Inr (SortedStage sort_Sort comparator (list @ [t]) down)"
| "Accept (LimitStage maxSize count down) t =
     (if count < maxSize
      then bindR (Accept down t) (\<lambda>d. Inr (LimitStage maxSize (count + 1) d))
      else Inr (LimitStage maxSize (count + 1) down))"
| "Accept (SkipStage n count down) t =
     (if count \<ge> n
      then bindR (Accept down t) (\<lambda>d. Inr (SkipStage n (count + 1) d))
      else Inr (SkipStage n (count + 1) down))"
| "AcceptEach st [] = Inr st"
| "AcceptEach st (x # xs) = bindR (Accept st x) (\<lambda>st'. AcceptEach st' xs)"
  by pat_completeness auto

lemma depth_Accept_partial:
  "Accept_AcceptEach_dom (Inl (st, t)) \<Longrightarrow>
     (\<forall>st'. Accept st t = Inr st' \<longrightarrow> depth st' = depth st)"
  "Accept_AcceptEach_dom (Inr (st, ts)) \<Longrightarrow>
     (\<forall>st'. AcceptEach st ts = Inr st' \<longrightarrow> depth st' = depth st)"
proof (induct st t and st ts rule: Accept_AcceptEach.pinduct)
  case (1 b vars t)
  then show ?case by (cases "actionFn b t vars") (auto simp: Accept.psimps)
next
  case (2 test down t)
  then show ?case by (cases "Accept down t") (simp_all add: Accept.psimps)
next
  case (3 f down t)
  then show ?case by (cases "Accept down (f t)") (simp_all add: Accept.psimps)
next
  case (4 flatten down t)
  then show ?case by (cases "AcceptEach down (flatten t)") (simp_all add: Accept.psimps)
next
  case (5 consumer w down t)
  then show ?case by (cases "Accept down t") (simp_all add: Accept.psimps)
next
  case (6 distincter down t)
  then show ?case by (simp add: Accept.psimps)
next
  case (7 distincter keys down t)
  then show ?case by (cases "Accept down t") (simp_all add: Accept.psimps)
next
  case (8 comparator list down t)
  then show ?case by (auto simp: Accept.psimps)
next
  case (9 maxSize count down t)
  then show ?case by (cases "Accept down t") (simp_all add: Accept.psimps)
next
  case (10 n count down t)
  then show ?case by (cases "Accept down t") (simp_all add: Accept.psimps)
next
  case (11 st)
  then show ?case by (auto simp: AcceptEach.psimps)
next
  case (12 st x xs)
  then show ?case by (cases "Accept st x") (simp_all add: AcceptEach.psimps)
qed

termination Accept
  apply (relation "measures
     [\<lambda>a. case a of Inl (st, t) \<Rightarrow> depth st | Inr (st, xs) \<Rightarrow> depth st,
      \<lambda>a. case a of Inl (st, t) \<Rightarrow> 0 | Inr (st, xs) \<Rightarrow> Suc (length xs)]")
  apply (simp_all add: depth_Accept_partial)
  done

lemma depth_Begin: "Begin st sz = Inr st' \<Longrightarrow> depth st' = depth st"
  by (induction st arbitrary: sz st') (auto simp: bindR_Inr_iff)

lemma depth_Accept_AcceptEach:
  "\<forall>st'. Accept st t = Inr st' \<longrightarrow> depth st' = depth st"
  "\<forall>st'. AcceptEach st ts = Inr st' \<longrightarrow> depth st' = depth st"
proof (induct st t and st ts rule: Accept_AcceptEach.induct)
  case (1 b vars t)
  then show ?case by (cases "actionFn b t vars") auto
next
  case (2 test down t)
  then show ?case by (cases "Accept down t") simp_all
next
  case (3 f down t)
  then show ?case by (cases "Accept down (f t)") simp_all
next
  case (4 flatten down t)
  then show ?case by (cases "AcceptEach down (flatten t)") simp_all
next
  case (5 consumer w down t)
  then show ?case by (cases "Accept down t") simp_all
next
  case (6 distincter down t)
  then show ?case by simp
next
  case (7 distincter keys down t)
  then show ?case by (cases "Accept down t") simp_all
next
  case (8 comparator list down t)
  then show ?case by auto
next
  case (9 maxSize count down t)
  then show ?case by (cases "Accept down t") simp_all
next
  case (10 n count down t)
  then show ?case by (cases "Accept down t") simp_all
next
  case (11 st)
  then show ?case by auto
next
  case (12 st x xs)
  then show ?case by (cases "Accept st x") simp_all
qed

lemma depth_Accept:
  "Accept st t = Inr st' \<Longrightarrow> depth st' = depth st"
  by (simp add: depth_Accept_AcceptEach(1))

subsection \<open>End\<close>

text \<open>
  Only Distinct and Sorted override \<^verbatim>\<open>end\<close>. Sorted sorts its buffer with the
  library's sort under \<^verbatim>\<open>Sortable.Less\<close>, begins the downstream stage again with the
  length of the sorted list, and walks a slice
  iterator over the sorted buffer: \<open>forward\<close> is that loop
  \<^verbatim>\<open>for i.HasNext() && !down.CanFinish() { down.Accept(i.Next()) }\<close>, the iterator
  \<open>i\<close> being the elements it has not yet returned.
\<close>

fun forward :: "('a, 'w, 't) stage \<Rightarrow> 'a list \<Rightarrow> error + ('a, 'w, 't) stage" where
  "forward down [] = Inr down"
| "forward down (x # xs) =
     (if \<not> CanFinish down then bindR (Accept down x) (\<lambda>d. forward d xs) else Inr down)"

lemma depth_forward:
  "forward down xs = Inr d \<Longrightarrow> depth d = depth down"
proof (induction xs arbitrary: down)
  case Nil
  then show ?case by simp
next
  case (Cons x xs)
  show ?case
  proof (cases "CanFinish down")
    case True
    with Cons.prems show ?thesis by simp
  next
    case False
    show ?thesis
    proof (cases "Accept down x")
      case (Inl e)
      with Cons.prems False show ?thesis by simp
    next
      case (Inr d1)
      with Cons.prems False have "forward d1 xs = Inr d" by simp
      then have "depth d = depth d1" by (rule Cons.IH)
      with Inr show ?thesis by (simp add: depth_Accept)
    qed
  qed
qed

function End :: "('a, 'w, 't) stage \<Rightarrow> error + ('a, 'w, 't) stage" where
  "End (TerminalStage b vars) = Inr (TerminalStage b (endFn b vars))"
| "End (FilterStage test down) = bindR (End down) (\<lambda>d. Inr (FilterStage test d))"
| "End (MapStage f down) = bindR (End down) (\<lambda>d. Inr (MapStage f d))"
| "End (FlatMapStage flatten down) = bindR (End down) (\<lambda>d. Inr (FlatMapStage flatten d))"
| "End (PeekStage consumer w down) = bindR (End down) (\<lambda>d. Inr (PeekStage consumer w d))"
| "End (DistinctStage distincter seen down) =
     bindR (End down) (\<lambda>d. Inr (DistinctStage distincter None d))"
| "End (SortedStage sort_Sort comparator list down) =
     bindR (Begin down (int (length (sort_Sort (Less comparator) list))))
       (\<lambda>d0. bindR (forward d0 (sort_Sort (Less comparator) list))
          (\<lambda>d. bindR (End d) (\<lambda>d'. Inr (SortedStage sort_Sort comparator [] d'))))"
| "End (LimitStage maxSize count down) =
     bindR (End down) (\<lambda>d. Inr (LimitStage maxSize count d))"
| "End (SkipStage n count down) = bindR (End down) (\<lambda>d. Inr (SkipStage n count d))"
  by pat_completeness auto
termination
proof (relation "measure depth")
  fix sort_Sort :: "('a \<Rightarrow> 'a \<Rightarrow> bool) \<Rightarrow> 'a list \<Rightarrow> 'a list"
    and comparator :: "'a \<Rightarrow> 'a \<Rightarrow> int" and list :: "'a list"
    and down d0 d :: "('a, 'w, 't) stage"
  assume "Begin down (int (length (sort_Sort (Less comparator) list))) = Inr d0"
    and "forward d0 (sort_Sort (Less comparator) list) = Inr d"
  then have "depth d = depth down"
    using depth_forward depth_Begin by metis
  then show "(d, SortedStage sort_Sort comparator list down) \<in> measure depth"
    by simp
qed simp_all

section \<open>Pipeline nodes and the walk (impl.go)\<close>

text \<open>
  A \<^verbatim>\<open>stream\<close> node holds the source, the previous node and its \<^verbatim>\<open>wrap\<close> function;
  the head has neither \<^verbatim>\<open>prev\<close> nor \<^verbatim>\<open>wrap\<close>. Every node of a chain points to the
  one iterator object of its head: the node holds the state of that object, and
  the walk returns the state the object is left in.
\<close>

datatype ('a, 'w, 't) stream =
    Head "'a iterator"
  | Node "'a iterator" "('a, 'w, 't) stream" "('a, 'w, 't) stage \<Rightarrow> ('a, 'w, 't) stage"

fun source :: "('a, 'w, 't) stream \<Rightarrow> 'a iterator" where
  "source (Head src) = src"
| "source (Node src prev wrap) = src"

definition newHead :: "'a iterator \<Rightarrow> ('a, 'w, 't) stream" where
  "newHead src = Head src"

definition newNode ::
  "('a, 'w, 't) stream \<Rightarrow> (('a, 'w, 't) stage \<Rightarrow> ('a, 'w, 't) stage) \<Rightarrow> ('a, 'w, 't) stream" where
  "newNode prev wrap = Node (source prev) prev wrap"

fun wrapStage :: "('a, 'w, 't) stream \<Rightarrow> ('a, 'w, 't) stage \<Rightarrow> ('a, 'w, 't) stage" where
  "wrapStage (Head src) stage = stage"
| "wrapStage (Node src prev wrap) stage = wrapStage prev (wrap stage)"

subsection \<open>The non-terminal operations\<close>

text \<open>
  Each operation makes a node whose \<^verbatim>\<open>wrap\<close> builds the chained stage around
  \<^verbatim>\<open>down\<close>, with the variables of the closure at their initial values. Sorted takes
  the library's \<^verbatim>\<open>sort.Sort\<close> as its first argument.
\<close>

definition Filter :: "('a \<Rightarrow> bool) \<Rightarrow> ('a, 'w, 't) stream \<Rightarrow> ('a, 'w, 't) stream" where
  "Filter test s = newNode s (\<lambda>down. FilterStage test down)"

definition Map :: "('a \<Rightarrow> 'a) \<Rightarrow> ('a, 'w, 't) stream \<Rightarrow> ('a, 'w, 't) stream" where
  "Map f s = newNode s (\<lambda>down. MapStage f down)"

definition FlatMap :: "('a \<Rightarrow> 'a list) \<Rightarrow> ('a, 'w, 't) stream \<Rightarrow> ('a, 'w, 't) stream" where
  "FlatMap flatten s = newNode s (\<lambda>down. FlatMapStage flatten down)"

definition Peek ::
  "('a \<Rightarrow> 'w \<Rightarrow> 'w) \<Rightarrow> 'w \<Rightarrow> ('a, 'w, 't) stream \<Rightarrow> ('a, 'w, 't) stream" where
  "Peek consumer w s = newNode s (\<lambda>down. PeekStage consumer w down)"

definition Distinct :: "('a \<Rightarrow> int) \<Rightarrow> ('a, 'w, 't) stream \<Rightarrow> ('a, 'w, 't) stream" where
  "Distinct distincter s = newNode s (\<lambda>down. DistinctStage distincter None down)"

definition Sorted ::
  "(('a \<Rightarrow> 'a \<Rightarrow> bool) \<Rightarrow> 'a list \<Rightarrow> 'a list) \<Rightarrow> ('a \<Rightarrow> 'a \<Rightarrow> int)
     \<Rightarrow> ('a, 'w, 't) stream \<Rightarrow> ('a, 'w, 't) stream" where
  "Sorted sort_Sort comparator s = newNode s (\<lambda>down. SortedStage sort_Sort comparator [] down)"

definition Limit :: "int \<Rightarrow> ('a, 'w, 't) stream \<Rightarrow> ('a, 'w, 't) stream" where
  "Limit maxSize s = newNode s (\<lambda>down. LimitStage maxSize 0 down)"

definition Skip :: "int \<Rightarrow> ('a, 'w, 't) stream \<Rightarrow> ('a, 'w, 't) stream" where
  "Skip n s = newNode s (\<lambda>down. SkipStage n 0 down)"

text \<open>The pipelines that the eight operations build over a head.\<close>

inductive pipeline :: "('a, 'w, 't) stream \<Rightarrow> bool" where
  pipeline_Head: "pipeline (newHead src)"
| pipeline_Filter: "pipeline s \<Longrightarrow> pipeline (Filter test s)"
| pipeline_Map: "pipeline s \<Longrightarrow> pipeline (Map f s)"
| pipeline_FlatMap: "pipeline s \<Longrightarrow> pipeline (FlatMap flatten s)"
| pipeline_Peek: "pipeline s \<Longrightarrow> pipeline (Peek consumer w s)"
| pipeline_Distinct: "pipeline s \<Longrightarrow> pipeline (Distinct distincter s)"
| pipeline_Sorted: "pipeline s \<Longrightarrow> pipeline (Sorted sort_Sort comparator s)"
| pipeline_Limit: "pipeline s \<Longrightarrow> pipeline (Limit maxSize s)"
| pipeline_Skip: "pipeline s \<Longrightarrow> pipeline (Skip n s)"

subsection \<open>The driver\<close>

text \<open>
  The driver records every call it makes on the source and on the composed stage,
  in program order, with the argument or the answer of the call. The loop of
  \<^verbatim>\<open>terminal\<close> may run forever (a seed source never ends): \<open>None\<close> is the walk that
  does not return, \<open>Some (Inl e)\<close> the walk that panics.
\<close>

datatype 'a call =
    GetSizeIfKnownCall int
  | BeginCall int
  | HasNextCall bool
  | CanFinishCall bool
  | NextCall 'a
  | AcceptCall 'a
  | EndCall

type_synonym ('a, 'w, 't) walk = "('a, 'w, 't) stage \<times> 'a iterator \<times> 'a call list"

partial_function (option) terminal_loop ::
  "('a, 'w, 't) stage \<Rightarrow> 'a iterator \<Rightarrow> 'a call list \<Rightarrow> (error + ('a, 'w, 't) walk) option" where
  "terminal_loop stage src calls =
     (if HasNext src
      then (if \<not> CanFinish stage
            then (case Next src of
                    Inl e \<Rightarrow> Some (Inl e)
                  | Inr (x, src') \<Rightarrow>
                      (case Accept stage x of
                         Inl e \<Rightarrow> Some (Inl e)
                       | Inr stage' \<Rightarrow>
                           terminal_loop stage' src'
                             (calls @ [HasNextCall True, CanFinishCall False,
                                       NextCall x, AcceptCall x])))
            else Some (Inr (stage, src, calls @ [HasNextCall True, CanFinishCall True])))
      else Some (Inr (stage, src, calls @ [HasNextCall False])))"

declare terminal_loop.simps [code]

definition terminal ::
  "('a, 'w, 't) stream \<Rightarrow> ('a, 'w, 't) stage \<Rightarrow> (error + ('a, 'w, 't) walk) option" where
  "terminal s ts =
     (let stage = wrapStage s ts;
          src = source s;
          sz = GetSizeIfKnown src
      in case Begin stage sz of
           Inl e \<Rightarrow> Some (Inl e)
         | Inr begun \<Rightarrow>
             (case terminal_loop begun src [GetSizeIfKnownCall sz, BeginCall sz] of
                None \<Rightarrow> None
              | Some (Inl e) \<Rightarrow> Some (Inl e)
              | Some (Inr (stage', src', calls)) \<Rightarrow>
                  (case End stage' of
                     Inl e \<Rightarrow> Some (Inl e)
                   | Inr stage'' \<Rightarrow> Some (Inr (stage'', src', calls @ [EndCall])))))"

text \<open>
  What a terminal operation returns after the walk: a function of its variables.
\<close>

definition returning ::
  "('t \<Rightarrow> error + 'r) \<Rightarrow> (error + ('a, 'w, 't) walk) option \<Rightarrow> (error + 'r) option" where
  "returning f r =
     (case r of
        None \<Rightarrow> None
      | Some (Inl e) \<Rightarrow> Some (Inl e)
      | Some (Inr (stage, src, calls)) \<Rightarrow> Some (f (terminalVars stage)))"

subsection \<open>The terminal operations\<close>

text \<open>
  The consumer of ForEach writes to a state \<open>'t\<close>, whose value after the walk is
  what ForEach leaves behind.
\<close>

definition ForEach ::
  "('a \<Rightarrow> 't \<Rightarrow> 't) \<Rightarrow> 't \<Rightarrow> ('a, 'w, 't) stream \<Rightarrow> (error + 't) option" where
  "ForEach consumer vars s =
     returning Inr
       (terminal s (TerminalStage (newTerminalStage (\<lambda>t v. Inr (consumer t v)) []) vars))"

text \<open>
  The accumulated value of ReduceWith and ReduceBy has the other interface type
  \<^verbatim>\<open>types.R\<close>. ReduceBy leaves its \<^verbatim>\<open>result\<close> variable \<^verbatim>\<open>nil\<close> (\<open>None\<close>) until Begin
  builds the initial value. The accumulator of ToSlice asserts that the value is a
  slice, which panics on \<^verbatim>\<open>nil\<close>, and so does the assertion on what ReduceBy returns.
  The initialiser of ToSlice makes the slice with the size hint as its capacity when
  the hint is not negative.
\<close>

definition ReduceWith ::
  "'r \<Rightarrow> ('r \<Rightarrow> 'a \<Rightarrow> 'r) \<Rightarrow> ('a, 'w, 'r) stream \<Rightarrow> (error + 'r) option" where
  "ReduceWith initValue accumulator s =
     returning Inr
       (terminal s
          (TerminalStage (newTerminalStage (\<lambda>t result. Inr (accumulator result t)) [])
             initValue))"

definition ReduceBy ::
  "(int \<Rightarrow> error + 'r option) \<Rightarrow> ('r option \<Rightarrow> 'a \<Rightarrow> error + 'r option)
     \<Rightarrow> ('a, 'w, 'r option) stream \<Rightarrow> (error + 'r option) option" where
  "ReduceBy buildInitValue accumulator s =
     returning Inr
       (terminal s
          (TerminalStage
             (newTerminalStage (\<lambda>t result. accumulator result t)
                [opt_begin (\<lambda>count result. buildInitValue count)])
             None))"

definition ToSlice :: "('a, 'w, 'a list option) stream \<Rightarrow> (error + 'a list) option" where
  "ToSlice s =
     (case ReduceBy
             (\<lambda>count. if count \<ge> 0 then bindR (makeSlice count) (\<lambda>sl. Inr (Some sl))
                      else Inr (Some []))
             (\<lambda>acc e. case acc of
                         None \<Rightarrow> Inl TypeAssertion
                       | Some sl \<Rightarrow> Inr (Some (sl @ [e])))
             s of
        None \<Rightarrow> None
      | Some (Inl e) \<Rightarrow> Some (Inl e)
      | Some (Inr None) \<Rightarrow> Some (Inl TypeAssertion)
      | Some (Inr (Some sl)) \<Rightarrow> Some (Inr sl))"

definition Count :: "('a, 'w, int) stream \<Rightarrow> (error + int) option" where
  "Count s = ReduceWith 0 (\<lambda>count t. count + 1) s"

text \<open>
  Reduce and the three matching operations call a function of the caller, which
  may itself panic (\<open>Inl\<close>); a walk that returns has then not called it on an
  argument where it panics. The elements that Reduce folds are interface values
  that may be \<^verbatim>\<open>nil\<close>: their type is \<open>'v option\<close>. The variables of Reduce are
  \<^verbatim>\<open>result\<close> and \<^verbatim>\<open>hasElement\<close>.
\<close>

datatype 'v optional = Empty | Present 'v

text \<open>
  Modelled from the spec: \<^verbatim>\<open>optional.OfNullable\<close>, of which the source has only the
  \<^verbatim>\<open>present\<close> half. The spec calls it "wrap a possibly-null result": \<^verbatim>\<open>nil\<close> gives
  the absent optional, any other value the present one holding it.
\<close>

fun OfNullable :: "'v option \<Rightarrow> 'v optional" where
  "OfNullable None = Empty"
| "OfNullable (Some v) = Present v"

definition Reduce ::
  "('v option \<Rightarrow> 'v option \<Rightarrow> error + 'v option)
     \<Rightarrow> ('v option, 'w, 'v option \<times> bool) stream \<Rightarrow> (error + 'v optional) option" where
  "Reduce accumulator s =
     returning (\<lambda>(result, hasElement). Inr (OfNullable result))
       (terminal s
          (TerminalStage
             (newTerminalStage
                (\<lambda>t (result, hasElement).
                   if \<not> hasElement then Inr (t, True)
                   else bindR (accumulator result t) (\<lambda>r. Inr (r, hasElement)))
                [])
             (None, False)))"

definition AllMatch ::
  "('a \<Rightarrow> error + bool) \<Rightarrow> ('a, 'w, bool) stream \<Rightarrow> (error + bool) option" where
  "AllMatch test s =
     returning Inr
       (terminal s
          (TerminalStage
             (newTerminalStage
                (\<lambda>t result. bindR (test t) (\<lambda>b. Inr (if \<not> b then False else result)))
                [opt_canFinish (\<lambda>result. \<not> result)])
             True))"

definition NoneMatch ::
  "('a \<Rightarrow> error + bool) \<Rightarrow> ('a, 'w, bool) stream \<Rightarrow> (error + bool) option" where
  "NoneMatch test s =
     returning Inr
       (terminal s
          (TerminalStage
             (newTerminalStage
                (\<lambda>t result. bindR (test t) (\<lambda>b. Inr (if b then False else result)))
                [opt_canFinish (\<lambda>result. \<not> result)])
             True))"

definition AnyMatch ::
  "('a \<Rightarrow> error + bool) \<Rightarrow> ('a, 'w, bool) stream \<Rightarrow> (error + bool) option" where
  "AnyMatch test s =
     returning Inr
       (terminal s
          (TerminalStage
             (newTerminalStage
                (\<lambda>t result. bindR (test t) (\<lambda>b. Inr (if b then True else result)))
                [opt_canFinish (\<lambda>result. result)])
             False))"

section \<open>The walk over a slice source\<close>

text \<open>
  On a slice source the loop of \<^verbatim>\<open>terminal\<close> always ends: it is a recursion on the
  elements not yet returned. \<open>slice_loop\<close> is that recursion with the recorded calls,
  \<open>slice_walk\<close> without them; both give back the elements left unread.
\<close>

fun slice_loop ::
  "('a, 'w, 't) stage \<Rightarrow> 'a list \<Rightarrow> 'a call list
     \<Rightarrow> error + (('a, 'w, 't) stage \<times> 'a list \<times> 'a call list)" where
  "slice_loop stage [] calls = Inr (stage, [], calls @ [HasNextCall False])"
| "slice_loop stage (x # xs) calls =
     (if \<not> CanFinish stage
      then bindR (Accept stage x)
             (\<lambda>stage'. slice_loop stage' xs
                (calls @ [HasNextCall True, CanFinishCall False, NextCall x, AcceptCall x]))
      else Inr (stage, x # xs, calls @ [HasNextCall True, CanFinishCall True]))"

lemma terminal_loop_slice:
  "i \<le> length xs \<Longrightarrow>
   terminal_loop stage (SliceIterator (int i) (int (length xs)) xs) calls =
     Some (case slice_loop stage (drop i xs) calls of
             Inl e \<Rightarrow> Inl e
           | Inr (stage', rest, calls') \<Rightarrow>
               Inr (stage', SliceIterator (int (length xs - length rest)) (int (length xs)) xs,
                    calls'))"
proof (induction "length xs - i" arbitrary: i stage calls)
  case 0
  then have "i = length xs" by simp
  then show ?case by (subst terminal_loop.simps) simp
next
  case (Suc n)
  then have lt: "i < length xs" by simp
  then have dr: "drop i xs = xs ! i # drop (Suc i) xs"
    by (simp add: Cons_nth_drop_Suc)
  have nx: "Next (SliceIterator (int i) (int (length xs)) xs) =
      Inr (xs ! i, SliceIterator (int i + 1) (int (length xs)) xs)"
    using lt by simp
  show ?case
  proof (cases "CanFinish stage")
    case True
    then show ?thesis using lt dr
      by (subst terminal_loop.simps) simp
  next
    case False
    show ?thesis
    proof (cases "Accept stage (xs ! i)")
      case (Inl e)
      then show ?thesis using lt dr False nx
        by (subst terminal_loop.simps) simp
    next
      case (Inr stage')
      have "n = length xs - Suc i" using Suc.hyps(2) by simp
      moreover have "Suc i \<le> length xs" using lt by simp
      ultimately have IH: "terminal_loop stage' (SliceIterator (int i + 1) (int (length xs)) xs) c =
         Some (case slice_loop stage' (drop (Suc i) xs) c of
             Inl e \<Rightarrow> Inl e
           | Inr (stage', rest, calls') \<Rightarrow>
               Inr (stage', SliceIterator (int (length xs - length rest)) (int (length xs)) xs,
                    calls'))" for c
        using Suc.hyps(1) [of "Suc i" stage' c] by (simp add: add.commute)
      show ?thesis using lt dr False Inr
        by (subst terminal_loop.simps) (simp add: nx IH del: Next.simps)
    qed
  qed
qed

fun slice_walk :: "('a, 'w, 't) stage \<Rightarrow> 'a list \<Rightarrow> error + (('a, 'w, 't) stage \<times> 'a list)" where
  "slice_walk stage [] = Inr (stage, [])"
| "slice_walk stage (x # xs) =
     (if \<not> CanFinish stage then bindR (Accept stage x) (\<lambda>stage'. slice_walk stage' xs)
      else Inr (stage, x # xs))"

definition step_calls :: "'a \<Rightarrow> 'a call list" where
  "step_calls x = [HasNextCall True, CanFinishCall False, NextCall x, AcceptCall x]"

definition exit_calls :: "'a list \<Rightarrow> 'a call list" where
  "exit_calls rest = (if rest = [] then [HasNextCall False] else [HasNextCall True, CanFinishCall True])"

lemma slice_walk_rest:
  "slice_walk stage xs = Inr (stage', rest) \<Longrightarrow> length rest \<le> length xs"
proof (induction xs arbitrary: stage)
  case Nil
  then show ?case by simp
next
  case (Cons x xs)
  show ?case
  proof (cases "CanFinish stage")
    case True
    with Cons.prems show ?thesis by auto
  next
    case False
    show ?thesis
    proof (cases "Accept stage x")
      case (Inl e)
      with Cons.prems False show ?thesis by simp
    next
      case (Inr st1)
      with Cons.prems False have "slice_walk st1 xs = Inr (stage', rest)" by simp
      then have "length rest \<le> length xs" by (rule Cons.IH)
      then show ?thesis by simp
    qed
  qed
qed

lemma slice_loop_walk:
  "slice_loop stage xs calls =
     (case slice_walk stage xs of
        Inl e \<Rightarrow> Inl e
      | Inr (stage', rest) \<Rightarrow>
          Inr (stage', rest,
               calls @ concat (map step_calls (take (length xs - length rest) xs))
                 @ exit_calls rest))"
proof (induction xs arbitrary: stage calls)
  case Nil
  show ?case by (simp add: exit_calls_def)
next
  case (Cons x xs)
  show ?case
  proof (cases "CanFinish stage")
    case True
    then show ?thesis by (simp add: exit_calls_def)
  next
    case False
    show ?thesis
    proof (cases "Accept stage x")
      case (Inl e)
      with False show ?thesis by simp
    next
      case (Inr st1)
      show ?thesis
      proof (cases "slice_walk st1 xs")
        case (Inl e)
        with False Inr Cons.IH [of st1] show ?thesis by simp
      next
        case r: (Inr pr)
        obtain st2 rest where pr: "pr = (st2, rest)" by (cases pr)
        have "length rest \<le> length xs"
          using r pr slice_walk_rest by blast
        then have "Suc (length xs) - length rest = Suc (length xs - length rest)"
          by simp
        with False Inr r pr Cons.IH [of st1] show ?thesis
          by (simp add: step_calls_def)
      qed
    qed
  qed
qed

lemma terminal_slice:
  assumes "source s = it xs"
  shows "terminal s ts =
     (case Begin (wrapStage s ts) (int (length xs)) of
        Inl e \<Rightarrow> Some (Inl e)
      | Inr begun \<Rightarrow>
          (case slice_walk begun xs of
             Inl e \<Rightarrow> Some (Inl e)
           | Inr (stage', rest) \<Rightarrow>
               (case End stage' of
                  Inl e \<Rightarrow> Some (Inl e)
                | Inr stage'' \<Rightarrow>
                    Some (Inr (stage'',
                           SliceIterator (int (length xs - length rest)) (int (length xs)) xs,
                           [GetSizeIfKnownCall (int (length xs)), BeginCall (int (length xs))]
                             @ concat (map step_calls (take (length xs - length rest) xs))
                             @ exit_calls rest @ [EndCall])))))"
proof -
  have "terminal_loop stage (SliceIterator 0 (int (length xs)) xs) calls =
     Some (case slice_loop stage xs calls of
             Inl e \<Rightarrow> Inl e
           | Inr (stage', rest, calls') \<Rightarrow>
               Inr (stage', SliceIterator (int (length xs - length rest)) (int (length xs)) xs,
                    calls'))" for stage :: "('a, 'b, 'c) stage" and calls
    using terminal_loop_slice [of 0 xs stage calls] by simp
  then show ?thesis
    by (simp add: terminal_def assms it_def Let_def slice_loop_walk
        split: sum.splits prod.splits)
qed

lemma makeSlice_in_range:
  "0 \<le> cap \<Longrightarrow> 16 * cap \<le> maxAlloc \<Longrightarrow> makeSlice cap = Inr []"
  by (simp add: makeSlice_def)

lemma slice_walk_Filter_Map_collect:
  assumes "actionFn B =
       (\<lambda>t result. case result of None \<Rightarrow> Inl TypeAssertion | Some sl \<Rightarrow> Inr (Some (sl @ [t])))"
    and "canFinishFn B = (\<lambda>result. False)"
  shows "slice_walk (FilterStage p (MapStage f (TerminalStage B (Some acc)))) xs =
     Inr (FilterStage p (MapStage f (TerminalStage B (Some (acc @ map f (filter p xs))))), [])"
proof (induction xs arbitrary: acc)
  case Nil
  show ?case by simp
next
  case (Cons x xs)
  show ?case
  proof (cases "p x")
    case True
    then show ?thesis
      using Cons.IH [of "acc @ [f x]"] assms by simp
  next
    case False
    then show ?thesis
      using Cons.IH [of acc] assms by simp
  qed
qed

definition toSliceStage :: "('a, 'a list option) baseStage" where
  "toSliceStage =
     newTerminalStage
       (\<lambda>t result. case result of None \<Rightarrow> Inl TypeAssertion | Some sl \<Rightarrow> Inr (Some (sl @ [t])))
       [opt_begin (\<lambda>count result.
                     if count \<ge> 0 then bindR (makeSlice count) (\<lambda>sl. Inr (Some sl))
                     else Inr (Some []))]"

lemma toSliceStage_fields [simp]:
  "actionFn toSliceStage =
     (\<lambda>t result. case result of None \<Rightarrow> Inl TypeAssertion | Some sl \<Rightarrow> Inr (Some (sl @ [t])))"
  "canFinishFn toSliceStage = (\<lambda>result. False)"
  "endFn toSliceStage = (\<lambda>vars. vars)"
  by (simp_all add: toSliceStage_def newTerminalStage_def defaultTerminalStage_def opt_begin_def)

lemma toSliceStage_begin:
  "beginFn toSliceStage sz result =
     (if sz \<ge> 0 then bindR (makeSlice sz) (\<lambda>sl. Inr (Some sl)) else Inr (Some []))"
  by (simp add: toSliceStage_def newTerminalStage_def defaultTerminalStage_def opt_begin_def)

lemma toSliceStage_begin_unknown [simp]:
  "beginFn toSliceStage unkonwnSize result = Inr (Some [])"
  by (simp add: toSliceStage_begin unkonwnSize_def)

lemma toSliceStage_begin_minus_one [simp]:
  "beginFn toSliceStage (- 1) result = Inr (Some [])"
  by (simp add: toSliceStage_begin)

lemma toSliceStage_begin_in_range:
  "16 * sz \<le> maxAlloc \<Longrightarrow> beginFn toSliceStage sz result = Inr (Some [])"
  by (simp add: toSliceStage_begin makeSlice_def)

lemma ToSlice_terminal:
  "ToSlice s =
     (case terminal s (TerminalStage toSliceStage None) of
        None \<Rightarrow> None
      | Some (Inl e) \<Rightarrow> Some (Inl e)
      | Some (Inr (stage, src, calls)) \<Rightarrow>
          (case terminalVars stage of
             None \<Rightarrow> Some (Inl TypeAssertion)
           | Some sl \<Rightarrow> Some (Inr sl)))"
  by (simp add: ToSlice_def ReduceBy_def returning_def toSliceStage_def
      split: option.splits sum.splits prod.splits)

lemma source_simps [simp]:
  "source (newHead src) = src"
  "source (newNode prev wrap) = source prev"
  "source (Filter test s) = source s"
  "source (Map f s) = source s"
  "source (FlatMap flatten s) = source s"
  "source (Peek consumer w s) = source s"
  "source (Distinct distincter s) = source s"
  "source (Sorted sort_Sort comparator s) = source s"
  "source (Limit maxSize s) = source s"
  "source (Skip n s) = source s"
  by (simp_all add: newHead_def newNode_def Filter_def Map_def FlatMap_def Peek_def
      Distinct_def Sorted_def Limit_def Skip_def)

lemma wrapStage_simps [simp]:
  "wrapStage (newHead src) stage = stage"
  "wrapStage (newNode prev wrap) stage = wrapStage prev (wrap stage)"
  "wrapStage (Filter test s) stage = wrapStage s (FilterStage test stage)"
  "wrapStage (Map f s) stage = wrapStage s (MapStage f stage)"
  "wrapStage (FlatMap flatten s) stage = wrapStage s (FlatMapStage flatten stage)"
  "wrapStage (Peek consumer w s) stage = wrapStage s (PeekStage consumer w stage)"
  "wrapStage (Distinct distincter s) stage = wrapStage s (DistinctStage distincter None stage)"
  "wrapStage (Sorted sort_Sort comparator s) stage =
     wrapStage s (SortedStage sort_Sort comparator [] stage)"
  "wrapStage (Limit maxSize s) stage = wrapStage s (LimitStage maxSize 0 stage)"
  "wrapStage (Skip n s) stage = wrapStage s (SkipStage n 0 stage)"
  by (simp_all add: newHead_def newNode_def Filter_def Map_def FlatMap_def Peek_def
      Distinct_def Sorted_def Limit_def Skip_def)

section \<open>The range source\<close>

lemma sint_diff_in_range:
  fixes a b :: "64 word"
  assumes "- (2 ^ 63) \<le> sint a - sint b" "sint a - sint b < 2 ^ 63"
  shows "sint (a - b) = sint a - sint b"
  using assms
  by (simp add: sint_word_ariths signed_take_bit_int_eq_self)

text \<open>
  As long as the difference of the cursor and the bound fits into 64 bits,
  \<^verbatim>\<open>HasNext\<close> is the comparison of the two numbers in the direction of the step.
\<close>

lemma rangeIt_HasNext_in_range:
  assumes "- (2 ^ 63) \<le> sint (range_next r) - sint (range_to r)"
    and "sint (range_next r) - sint (range_to r) < 2 ^ 63"
  shows "rangeIt_HasNext r =
     (if 0 \<le> sint (range_step r) then sint (range_next r) < sint (range_to r)
      else sint (range_next r) > sint (range_to r))"
  using assms by (simp add: rangeIt_HasNext_def epInt_CompareTo_def sint_diff_in_range)

text \<open>
  C8. The range from \<open>- 2 ^ 63\<close> up to 1 with step 1: the step is nonnegative and the
  cursor is below the bound, yet \<^verbatim>\<open>HasNext\<close> is false, because the difference
  computed by \<^verbatim>\<open>CompareTo\<close> wraps around to \<open>2 ^ 63 - 1\<close>.
\<close>

theorem rangeIt_HasNext_wraps:
  "\<not> rangeIt_HasNext (withRange (- 9223372036854775808) 1 1) \<and>
   0 \<le> sint (1 :: 64 word) \<and>
   sint (- 9223372036854775808 :: epInt) < sint (1 :: epInt)"
  by (simp add: rangeIt_HasNext_def withRange_def epInt_CompareTo_def)

section \<open>Filter, Map and ToSlice\<close>

text \<open>
  C6. Over a slice source, Filter with \<open>p\<close>, then Map with \<open>f\<close>, then ToSlice returns
  \<open>f\<close> of exactly the elements that satisfy \<open>p\<close>, in the order of the source; the even
  numbers of 1 to 6, doubled, are 4, 8, 12.
\<close>

theorem Filter_Map_ToSlice:
  "ToSlice (Map f (Filter p (newHead (it xs)))) = Some (Inr (map f (filter p xs))) \<and>
   ToSlice (Map (\<lambda>x. x * 2) (Filter (\<lambda>x. x mod 2 = 0) (newHead (it [1, 2, 3, 4, 5, 6 :: int]))))
     = Some (Inr [4, 8, 12])"
  by (simp add: ToSlice_terminal terminal_slice [of _ xs] terminal_slice [of _ "[1, 2, 3, 4, 5, 6]"]
      slice_walk_Filter_Map_collect unkonwnSize_def)

section \<open>Limit over the seed source\<close>

text \<open>The arguments of the \<^verbatim>\<open>Next\<close> calls in a record of calls, in order.\<close>

fun nextCalls :: "'a call list \<Rightarrow> 'a list" where
  "nextCalls [] = []"
| "nextCalls (NextCall x # cs) = x # nextCalls cs"
| "nextCalls (c # cs) = nextCalls cs"

lemma nextCalls_append [simp]: "nextCalls (cs @ ds) = nextCalls cs @ nextCalls ds"
  by (induction cs rule: nextCalls.induct) simp_all

lemma nextCalls_steps [simp]: "nextCalls (concat (map step_calls xs)) = xs"
  by (induction xs) (simp_all add: step_calls_def)

lemma nextCalls_steps_comp [simp]:
  "nextCalls (concat (map (step_calls \<circ> g) xs)) = map g xs"
  by (induction xs) (simp_all add: step_calls_def)

lemma seed_Limit_loop:
  "c \<le> k \<Longrightarrow> n = nat (k - c) \<Longrightarrow>
   terminal_loop (LimitStage k c (TerminalStage toSliceStage (Some acc))) (SeedIt e f False) calls =
     Some (Inr (LimitStage k k
                  (TerminalStage toSliceStage (Some (acc @ map (\<lambda>i. (f ^^ Suc i) e) [0..<n]))),
                SeedIt ((f ^^ n) e) f False,
                calls @ concat (map step_calls (map (\<lambda>i. (f ^^ Suc i) e) [0..<n]))
                  @ [HasNextCall True, CanFinishCall True]))"
proof (induction n arbitrary: c e acc calls)
  case 0
  then have "c = k" by simp
  then show ?case by (subst terminal_loop.simps) simp
next
  case (Suc n)
  then have lt: "c < k" and n: "n = nat (k - (c + 1))" and le: "c + 1 \<le> k" by simp_all
  have shift: "map (\<lambda>i. (f ^^ Suc i) e) [0..<Suc n] = f e # map (\<lambda>i. (f ^^ Suc i) (f e)) [0..<n]"
    by (simp add: upt_rec [of 0] map_Suc_upt [symmetric] funpow_swap1 del: upt_Suc)
  have pow: "(f ^^ Suc n) e = (f ^^ n) (f e)"
    by (simp add: funpow_swap1)
  show ?case
    using lt Suc.IH [OF le n, of "acc @ [f e]" "f e"]
    by (subst terminal_loop.simps) (simp add: shift pow step_calls_def [abs_def] del: funpow.simps upt_Suc)
qed

text \<open>
  C2. For \<open>k \<ge> 1\<close>, Limit \<open>k\<close> then ToSlice over the seed source with seed \<open>s\<close> and
  operator \<open>f\<close> returns, and the slice is \<open>s, f s, f (f s), \<dots>\<close> of length \<open>k\<close>. The walk
  that ToSlice runs (its terminal stage is \<open>toSliceStage\<close>) makes exactly these calls:
  the size query and Begin, then \<open>k\<close> rounds of HasNext, CanFinish, Next, Accept, then
  one more HasNext and the CanFinish that answers true, then End. So \<^verbatim>\<open>Next\<close> is called
  \<open>k\<close> times and not once more.
\<close>

theorem Limit_seed_ToSlice:
  assumes "1 \<le> k"
  shows "ToSlice (Limit k (newHead (withSeed s f)) :: ('a, 'w, 'a list option) stream)
      = Some (Inr (map (\<lambda>i. (f ^^ i) s) [0..<nat k])) \<and>
    (\<exists>stage src calls.
       terminal (Limit k (newHead (withSeed s f)) :: ('a, 'w, 'a list option) stream)
           (TerminalStage toSliceStage None)
         = Some (Inr (stage, src, calls)) \<and>
       calls = [GetSizeIfKnownCall (- 1), BeginCall (- 1)]
                 @ concat (map step_calls (map (\<lambda>i. (f ^^ i) s) [0..<nat k]))
                 @ [HasNextCall True, CanFinishCall True, EndCall] \<and>
       nextCalls calls = map (\<lambda>i. (f ^^ i) s) [0..<nat k] \<and>
       length (nextCalls calls) = nat k)"
proof -
  obtain n where n: "n = nat (k - 1)" by simp
  then have k: "nat k = Suc n" using assms by simp
  have elems: "map (\<lambda>i. (f ^^ i) s) [0..<Suc n] = s # map (\<lambda>i. (f ^^ Suc i) s) [0..<n]"
    by (simp add: upt_rec [of 0] map_Suc_upt [symmetric] del: upt_Suc funpow.simps)
  have loop: "terminal_loop (LimitStage k 0 (TerminalStage toSliceStage (Some [])))
       (SeedIt s f True) [GetSizeIfKnownCall (- 1), BeginCall (- 1)] =
     Some (Inr (LimitStage k k
                  (TerminalStage toSliceStage (Some (map (\<lambda>i. (f ^^ i) s) [0..<Suc n]))),
                SeedIt ((f ^^ n) s) f False,
                [GetSizeIfKnownCall (- 1), BeginCall (- 1)]
                  @ concat (map step_calls (map (\<lambda>i. (f ^^ i) s) [0..<Suc n]))
                  @ [HasNextCall True, CanFinishCall True]))"
    using assms
    by (subst terminal_loop.simps)
      (simp add: seed_Limit_loop [of 1 k n, OF assms n] elems step_calls_def del: upt_Suc funpow.simps)
  have run: "terminal (Limit k (newHead (withSeed s f))) (TerminalStage toSliceStage None) =
     Some (Inr (LimitStage k k
                  (TerminalStage toSliceStage (Some (map (\<lambda>i. (f ^^ i) s) [0..<Suc n]))),
                SeedIt ((f ^^ n) s) f False,
                [GetSizeIfKnownCall (- 1), BeginCall (- 1)]
                  @ concat (map step_calls (map (\<lambda>i. (f ^^ i) s) [0..<Suc n]))
                  @ [HasNextCall True, CanFinishCall True, EndCall]))"
    using assms
    by (simp add: terminal_def withSeed_def unkonwnSize_def loop Let_def del: upt_Suc funpow.simps)
  show ?thesis
    by (simp add: ToSlice_terminal run k del: upt_Suc funpow.simps)
qed

text \<open>Limit 3 over seed 0 with operator \<open>+1\<close> yields 0, 1, 2.\<close>

theorem Limit_seed_ToSlice_witness:
  "(1::int) \<le> 3 \<and>
   ToSlice (Limit 3 (newHead (withSeed (0::int) (\<lambda>x. x + 1))) :: (int, unit, int list option) stream)
     = Some (Inr [0, 1, 2])"
  using Limit_seed_ToSlice [where 'w = unit and k = 3 and s = "0::int" and f = "\<lambda>x. x + 1"]
  by (simp add: upt_rec [of 0] upt_rec [of 1] upt_rec [of 2] eval_nat_numeral)

section \<open>Distinct\<close>

text \<open>
  The elements of a list whose hash code is not in \<open>seen\<close> and has not occurred
  earlier in the list.
\<close>

fun unseen :: "('a \<Rightarrow> int) \<Rightarrow> int set \<Rightarrow> 'a list \<Rightarrow> 'a list" where
  "unseen h seen [] = []"
| "unseen h seen (x # xs) =
     (if h x \<in> seen then unseen h seen xs else x # unseen h (insert (h x) seen) xs)"

lemma unseen_index:
  "unseen h seen xs =
     map (\<lambda>i. xs ! i) (filter (\<lambda>i. h (xs ! i) \<notin> seen \<union> h ` set (take i xs)) [0..<length xs])"
proof (induction xs arbitrary: seen)
  case Nil
  show ?case by simp
next
  case (Cons x xs)
  have upt: "[0..<length (x # xs)] = 0 # map Suc [0..<length xs]"
    by (simp add: map_Suc_upt upt_conv_Cons del: upt_Suc)
  show ?case
    unfolding upt
    by (auto simp add: Cons.IH filter_map comp_def simp del: upt_Suc
        intro!: arg_cong [where f = "map ((!) xs)"] filter_cong)
qed

lemma slice_walk_Distinct_collect:
  "slice_walk (DistinctStage h (Some seen) (TerminalStage toSliceStage (Some acc))) xs =
     Inr (DistinctStage h (Some (seen \<union> h ` set xs))
            (TerminalStage toSliceStage (Some (acc @ unseen h seen xs))), [])"
proof (induction xs arbitrary: seen acc)
  case Nil
  show ?case by simp
next
  case (Cons x xs)
  show ?case
  proof (cases "h x \<in> seen")
    case True
    then have "insert (h x) (seen \<union> h ` set xs) = seen \<union> h ` set xs" by auto
    with True show ?thesis using Cons.IH [of seen acc] by simp
  next
    case False
    then show ?thesis using Cons.IH [of "insert (h x) seen" "acc @ [x]"] by simp
  qed
qed

text \<open>
  C4. Distinct then ToSlice over a slice source returns the elements at the positions
  \<open>i\<close> whose hash code differs from the hash codes of all earlier positions, in source
  order. A stage that has begun forwards an element exactly when its hash code is not
  in the seen-set, and then adds it; nothing but the hash code is compared, so of 1
  and 3 under the hash \<open>x mod 2\<close> only 1 is kept. Begin replaces whatever seen-set there
  was by an empty one before it begins the downstream stage, End sets it to \<^verbatim>\<open>nil\<close>. Over 1, 2, 2, 3, 1 with the identity
  hash the result is 1, 2, 3.
\<close>

theorem Distinct_first_occurrences:
  "ToSlice (Distinct h (newHead (it xs)) :: ('a, 'w, 'a list option) stream) =
     Some (Inr (map (\<lambda>i. xs ! i)
                  (filter (\<lambda>i. h (xs ! i) \<notin> h ` set (take i xs)) [0..<length xs]))) \<and>
   Accept (DistinctStage h (Some seen) (down :: ('a, 'w, 't) stage)) t =
     (if h t \<in> seen then Inr (DistinctStage h (Some seen) down)
      else (case Accept down t of
              Inl e \<Rightarrow> Inl e
            | Inr d \<Rightarrow> Inr (DistinctStage h (Some (insert (h t) seen)) d))) \<and>
   Begin (DistinctStage h old down) sz =
     (case Begin down unkonwnSize of
        Inl e \<Rightarrow> Inl e
      | Inr d \<Rightarrow> Inr (DistinctStage h (Some {}) d)) \<and>
   End (DistinctStage h old down) =
     (case End down of Inl e \<Rightarrow> Inl e | Inr d \<Rightarrow> Inr (DistinctStage h None d)) \<and>
   ToSlice (Distinct (\<lambda>x. x mod 2) (newHead (it [1, 3 :: int])) :: (int, 'w, int list option) stream)
     = Some (Inr [1]) \<and>
   ToSlice (Distinct (\<lambda>x. x) (newHead (it [1, 2, 2, 3, 1 :: int])) :: (int, 'w, int list option) stream)
     = Some (Inr [1, 2, 3])"
proof -
  have run: "ToSlice (Distinct g (newHead (it ys)) :: ('b, 'w, 'b list option) stream) =
      Some (Inr (unseen g {} ys))" for g and ys :: "'b list"
    by (simp add: ToSlice_terminal terminal_slice [of _ ys] slice_walk_Distinct_collect)
  have first: "unseen g {} ys =
      map (\<lambda>i. ys ! i) (filter (\<lambda>i. g (ys ! i) \<notin> g ` set (take i ys)) [0..<length ys])"
    for g and ys :: "'b list"
    by (simp add: unseen_index)
  have "unseen (\<lambda>x. x mod 2) {} [1, 3 :: int] = [1]"
    and "unseen (\<lambda>x. x) {} [1, 2, 2, 3, 1 :: int] = [1, 2, 3]"
    by simp_all
  then show ?thesis
    by (simp add: run first [of h xs, symmetric] split: sum.splits)
qed

section \<open>Sorted\<close>

subsection \<open>What the contract of the library's sort gives\<close>

lemma count_list_length:
  assumes "\<forall>z. count_list ys z = count_list xs z"
  shows "length ys = length xs"
proof -
  let ?X = "set xs \<union> set ys"
  have "sum (count_list ys) ?X = length ys" and "sum (count_list xs) ?X = length xs"
    by (simp_all add: sum_count_set)
  with assms show ?thesis by simp
qed

lemma sortContract_count:
  "sortContract sort_Sort \<Longrightarrow> count_list (sort_Sort lt xs) z = count_list xs z"
  by (simp add: sortContract_def)

lemma sortContract_length:
  "sortContract sort_Sort \<Longrightarrow> length (sort_Sort lt xs) = length xs"
  by (rule count_list_length) (simp add: sortContract_def)

lemma sortContract_Nil:
  "sortContract sort_Sort \<Longrightarrow> sort_Sort lt [] = []"
  using sortContract_length [of sort_Sort lt "[]"] by simp

lemma sortContract_sorted:
  "sortContract sort_Sort \<Longrightarrow> strictWeakOrder lt \<Longrightarrow>
     sorted_wrt (\<lambda>x y. \<not> lt y x) (sort_Sort lt xs)"
  by (simp add: sortContract_def)

lemma threeWay_strictWeakOrder:
  assumes "threeWay Cmp"
  shows "strictWeakOrder (Less Cmp)"
proof -
  have anti: "(Cmp x y < 0) = (Cmp y x > 0)" for x y
    using assms by (simp add: threeWay_def)
  have trans: "Cmp x y \<le> 0 \<Longrightarrow> Cmp y z \<le> 0 \<Longrightarrow> Cmp x z \<le> 0" for x y z
    using assms unfolding threeWay_def by blast
  have ge: "(\<not> Cmp x y < 0) = (Cmp y x \<le> 0)" for x y
    using anti [of x y] by auto
  show ?thesis
    unfolding strictWeakOrder_def Less_def
  proof (intro conjI allI impI)
    fix x y
    assume "Cmp x y < 0"
    then show "\<not> Cmp y x < 0" using anti [of x y] by simp
  next
    fix x y z
    assume "\<not> Cmp x y < 0" and "\<not> Cmp y z < 0"
    then have "Cmp y x \<le> 0" and "Cmp z y \<le> 0" by (simp_all add: ge)
    then have "Cmp z x \<le> 0" using trans by blast
    then show "\<not> Cmp x z < 0" by (simp add: ge)
  qed
qed

lemma threeWay_sorted:
  assumes "sortContract sort_Sort" and "threeWay Cmp"
  shows "sorted_wrt (\<lambda>x y. Cmp x y \<le> 0) (sort_Sort (Less Cmp) xs)"
proof -
  have "(\<not> Less Cmp y x) = (Cmp x y \<le> 0)" for x y
    using assms(2) unfolding threeWay_def Less_def by (metis not_less)
  with sortContract_sorted [OF assms(1) threeWay_strictWeakOrder [OF assms(2)], of xs]
  show ?thesis by simp
qed

subsection \<open>The insertion sort meets the contract\<close>

lemma count_list_insertBack:
  "count_list (insertBack lt x ys) y = count_list (x # ys) y"
  by (induction ys) auto

lemma set_insertBack: "set (insertBack lt x ys) = insert x (set ys)"
  by (induction ys) auto

lemma count_list_insertionSort: "count_list (insertionSort lt xs) y = count_list xs y"
proof -
  have "count_list (foldl (\<lambda>pre x. insertBack lt x pre) acc xs) y
      = count_list acc y + count_list xs y" for acc
    by (induction xs arbitrary: acc) (auto simp: count_list_insertBack)
  then show ?thesis by (simp add: insertionSort_def)
qed

lemma descending_insertBack:
  assumes "strictWeakOrder lt" and "sorted_wrt (\<lambda>a b. \<not> lt a b) ys"
  shows "sorted_wrt (\<lambda>a b. \<not> lt a b) (insertBack lt x ys)"
  using assms(2)
proof (induction ys)
  case Nil
  show ?case by simp
next
  case (Cons y ys)
  have asym: "lt a b \<Longrightarrow> \<not> lt b a" for a b
    using assms(1) unfolding strictWeakOrder_def by blast
  have ntrans: "\<not> lt a b \<Longrightarrow> \<not> lt b c \<Longrightarrow> \<not> lt a c" for a b c
    using assms(1) unfolding strictWeakOrder_def by blast
  show ?case
  proof (cases "lt x y")
    case True
    with Cons asym show ?thesis by (auto simp: set_insertBack)
  next
    case False
    with Cons.prems ntrans show ?thesis by auto
  qed
qed

lemma sorted_insertionSort:
  assumes "strictWeakOrder lt"
  shows "sorted_wrt (\<lambda>x y. \<not> lt y x) (insertionSort lt xs)"
proof -
  have "sorted_wrt (\<lambda>a b. \<not> lt a b) acc \<Longrightarrow>
      sorted_wrt (\<lambda>a b. \<not> lt a b) (foldl (\<lambda>pre x. insertBack lt x pre) acc xs)" for acc
    by (induction xs arbitrary: acc) (simp_all add: descending_insertBack [OF assms])
  then have "sorted_wrt (\<lambda>a b. \<not> lt a b) (foldl (\<lambda>pre x. insertBack lt x pre) [] xs)"
    by simp
  then show ?thesis
    by (simp add: insertionSort_def sorted_wrt_rev)
qed

lemma sortContract_insertionSort: "sortContract insertionSort"
  by (simp add: sortContract_def count_list_insertionSort sorted_insertionSort)

subsection \<open>Ascending lists with the same elements are equal\<close>

lemma sorted_count_list_unique:
  fixes xs ys :: "'a :: linorder list"
  assumes "sorted xs" and "sorted ys" and "\<forall>z. count_list xs z = count_list ys z"
  shows "xs = ys"
  using assms
proof (induction xs arbitrary: ys)
  case Nil
  then have "\<forall>z. z \<notin> set ys" by (simp add: count_list_0_iff [symmetric])
  then show ?case by (cases ys) auto
next
  case (Cons x xs)
  have sets: "set (x # xs) = set ys"
  proof -
    have "(z \<in> set (x # xs)) = (z \<in> set ys)" for z
      using Cons.prems(3) count_list_0_iff [of "x # xs" z] count_list_0_iff [of ys z]
      by metis
    then show ?thesis by blast
  qed
  then obtain y ys' where ys: "ys = y # ys'" by (cases ys) auto
  have "x \<le> y" using Cons.prems(1) sets ys by auto
  moreover have "y \<le> x" using Cons.prems(2) sets ys by auto
  ultimately have xy: "x = y" by simp
  have "\<forall>z. count_list xs z = count_list ys' z"
    using Cons.prems(3) ys xy by (auto split: if_splits)
  moreover have "sorted xs" "sorted ys'" using Cons.prems ys by simp_all
  ultimately have "xs = ys'" using Cons.IH by blast
  with ys xy show ?case by simp
qed

lemma threeWay_IntComparator: "threeWay IntComparator"
  by (auto simp: threeWay_def IntComparator_def split: if_splits)

lemma sorted_IntComparator:
  "sorted_wrt (\<lambda>x y. IntComparator x y \<le> 0) xs = sorted xs"
proof -
  have "(\<lambda>x y. IntComparator x y \<le> 0) = (\<le>)"
    by (auto simp: IntComparator_def fun_eq_iff)
  then show ?thesis by simp
qed

lemma sort_Sort_312:
  assumes "sortContract sort_Sort"
  shows "sort_Sort (Less IntComparator) [3, 1, 2] = [1, 2, 3]"
proof (rule sorted_count_list_unique)
  show "sorted (sort_Sort (Less IntComparator) [3, 1, 2])"
    using threeWay_sorted [OF assms threeWay_IntComparator] by (simp add: sorted_IntComparator)
  show "sorted [1, 2, 3 :: int]" by simp
  show "\<forall>z. count_list (sort_Sort (Less IntComparator) [3, 1, 2]) z = count_list [1, 2, 3] z"
    by (auto simp: sortContract_count [OF assms])
qed

subsection \<open>The stage\<close>

text \<open>
  A terminal stage that records the calls it receives and reports that it can
  finish once it has accepted \<open>m\<close> elements: what a stage downstream of Sorted sees.
\<close>

fun acceptCalls :: "'a call list \<Rightarrow> 'a list" where
  "acceptCalls [] = []"
| "acceptCalls (AcceptCall x # cs) = x # acceptCalls cs"
| "acceptCalls (c # cs) = acceptCalls cs"

definition probe :: "nat \<Rightarrow> ('a, 'a call list) baseStage" where
  "probe m =
     newTerminalStage (\<lambda>t log. Inr (log @ [AcceptCall t]))
       [opt_begin (\<lambda>sz log. Inr (log @ [BeginCall sz])),
        opt_canFinish (\<lambda>log. m \<le> length (acceptCalls log)),
        opt_end (\<lambda>log. log @ [EndCall])]"

lemma probe_fields [simp]:
  "beginFn (probe m) = (\<lambda>sz log. Inr (log @ [BeginCall sz]))"
  "actionFn (probe m) = (\<lambda>t log. Inr (log @ [AcceptCall t]))"
  "canFinishFn (probe m) = (\<lambda>log. m \<le> length (acceptCalls log))"
  "endFn (probe m) = (\<lambda>log. log @ [EndCall])"
  by (simp_all add: probe_def newTerminalStage_def defaultTerminalStage_def
      opt_begin_def opt_canFinish_def opt_end_def)

lemma acceptCalls_append [simp]: "acceptCalls (cs @ ds) = acceptCalls cs @ acceptCalls ds"
  by (induction cs rule: acceptCalls.induct) simp_all

lemma forward_probe:
  "forward (TerminalStage (probe m) log :: ('a, 'w, 'a call list) stage) ys =
     Inr (TerminalStage (probe m)
            (log @ map AcceptCall (take (m - length (acceptCalls log)) ys)))"
proof (induction ys arbitrary: log)
  case Nil
  show ?case by simp
next
  case (Cons y ys)
  show ?case
  proof (cases "m \<le> length (acceptCalls log)")
    case True
    then show ?thesis by simp
  next
    case False
    then have "m - length (acceptCalls log) = Suc (m - Suc (length (acceptCalls log)))"
      by simp
    with False show ?thesis
      using Cons.IH [of "log @ [AcceptCall y]"] by simp
  qed
qed

lemma slice_walk_Sorted_buffers:
  assumes "\<not> CanFinish down"
  shows "slice_walk (SortedStage sort_Sort cmp buf down) xs
           = Inr (SortedStage sort_Sort cmp (buf @ xs) down, [])"
  using assms by (induction xs arbitrary: buf) simp_all

lemma forward_toSlice:
  "forward (TerminalStage toSliceStage (Some acc) :: ('a, 'w, 'a list option) stage) ys =
     Inr (TerminalStage toSliceStage (Some (acc @ ys)))"
  by (induction ys arbitrary: acc) simp_all

lemma ToSlice_Sorted:
  assumes "sortContract sort_Sort" and "16 * int (length xs) \<le> maxAlloc"
  shows "ToSlice (Sorted sort_Sort cmp (newHead (it xs)) :: ('a, 'w, 'a list option) stream) =
     Some (Inr (sort_Sort (Less cmp) xs))"
  using assms(2)
  by (simp add: ToSlice_terminal terminal_slice [of _ xs] makeSlice_in_range
      toSliceStage_begin_in_range slice_walk_Sorted_buffers forward_toSlice
      sortContract_length [OF assms(1)])

lemma probe_after_Sorted:
  assumes "sortContract sort_Sort" and "16 * int (length xs) \<le> maxAlloc"
  shows "returning Inr
     (terminal (Sorted sort_Sort cmp (newHead (it xs)) :: ('a, 'w, 'a call list) stream)
        (TerminalStage (probe (Suc m)) [])) =
   Some (Inr ([BeginCall (int (length xs)), BeginCall (int (length xs))]
                @ map AcceptCall (take (Suc m) (sort_Sort (Less cmp) xs)) @ [EndCall]))"
  using assms(2)
  by (simp add: returning_def terminal_slice [of _ xs] makeSlice_in_range
      slice_walk_Sorted_buffers forward_probe sortContract_length [OF assms(1)])

text \<open>
  C3. Accept of the Sorted stage only appends to the buffer and leaves the downstream
  stage as it is. End sorts the buffer with the library's sort under the comparator's
  \<open>Less\<close>, begins the downstream stage with the length of the buffer, forwards the
  sorted elements in order, asking the downstream's CanFinish before each one and
  stopping when it is true, and then ends the downstream stage. The library's sort is
  any function that meets its contract: the result has the elements of the input, each
  as often, and is in order when \<open>Less\<close> is a strict weak order; the order among
  elements that compare equal is left open. For every such sort, every comparator and
  every slice source (a slice of interfaces takes sixteen bytes an element, so its
  length is one that \<open>make\<close> accepts as a capacity): a downstream stage that records its
  calls and can finish after \<open>m + 1\<close> elements sees the Begin of the walk, a second
  Begin with the number of buffered elements, the first \<open>m + 1\<close> sorted elements, End;
  Sorted then ToSlice returns the sorted buffer, which has the elements of the source,
  each as often, and, when the comparator is a consistent three-way comparison, is
  ascending under it. Over 3, 1, 2 with the comparator of integers the result is
  1, 2, 3.
\<close>

theorem Sorted_buffers_then_replays:
  "Accept (SortedStage sort_Sort cmp buf (down :: ('a, 'w, 't) stage)) t
     = Inr (SortedStage sort_Sort cmp (buf @ [t]) down) \<and>
   End (SortedStage sort_Sort cmp buf down) =
     (case Begin down (int (length (sort_Sort (Less cmp) buf))) of
        Inl e \<Rightarrow> Inl e
      | Inr d0 \<Rightarrow>
          (case forward d0 (sort_Sort (Less cmp) buf) of
             Inl e \<Rightarrow> Inl e
           | Inr d \<Rightarrow>
               (case End d of Inl e \<Rightarrow> Inl e
                | Inr d' \<Rightarrow> Inr (SortedStage sort_Sort cmp [] d')))) \<and>
   forward down [] = Inr down \<and>
   forward down (x # ys) =
     (if CanFinish down then Inr down
      else (case Accept down x of Inl e \<Rightarrow> Inl e | Inr d \<Rightarrow> forward d ys)) \<and>
   (sortContract sort_Sort \<and> 16 * int (length xs) \<le> maxAlloc \<longrightarrow>
      returning Inr
        (terminal (Sorted sort_Sort cmp (newHead (it xs)) :: ('a, 'w, 'a call list) stream)
           (TerminalStage (probe (Suc m)) [])) =
        Some (Inr ([BeginCall (int (length xs)), BeginCall (int (length xs))]
                     @ map AcceptCall (take (Suc m) (sort_Sort (Less cmp) xs)) @ [EndCall])) \<and>
      ToSlice (Sorted sort_Sort cmp (newHead (it xs)) :: ('a, 'w, 'a list option) stream)
        = Some (Inr (sort_Sort (Less cmp) xs)) \<and>
      (\<forall>z. count_list (sort_Sort (Less cmp) xs) z = count_list xs z) \<and>
      (threeWay cmp \<longrightarrow> sorted_wrt (\<lambda>x y. cmp x y \<le> 0) (sort_Sort (Less cmp) xs))) \<and>
   (sortContract sort_Ints \<longrightarrow>
      ToSlice (Sorted sort_Ints IntComparator (newHead (it [3, 1, 2]))
                 :: (int, 'w, int list option) stream)
        = Some (Inr [1, 2, 3]))"
proof -
  have run: "sortContract sort_Ints \<Longrightarrow>
      ToSlice (Sorted sort_Ints IntComparator (newHead (it [3, 1, 2]))
                 :: (int, 'w, int list option) stream) = Some (Inr [1, 2, 3])"
    by (simp add: ToSlice_Sorted maxAlloc_def sort_Sort_312)
  show ?thesis
    by (simp add: probe_after_Sorted ToSlice_Sorted sortContract_count threeWay_sorted run
        split: sum.splits)
qed

theorem Sorted_buffers_then_replays_witness:
  "sortContract (insertionSort :: (int \<Rightarrow> int \<Rightarrow> bool) \<Rightarrow> int list \<Rightarrow> int list) \<and>
   16 * int (length [3, 1, 2 :: int]) \<le> maxAlloc \<and>
   threeWay IntComparator \<and>
   returning Inr
     (terminal (Sorted insertionSort IntComparator (newHead (it [3, 1, 2]))
                  :: (int, unit, int call list) stream)
        (TerminalStage (probe (Suc 1)) [])) =
     Some (Inr [BeginCall 3, BeginCall 3, AcceptCall 1, AcceptCall 2, EndCall]) \<and>
   ToSlice (Sorted insertionSort IntComparator (newHead (it [3, 1, 2]))
              :: (int, unit, int list option) stream) = Some (Inr [1, 2, 3]) \<and>
   sorted_wrt (\<lambda>x y. IntComparator x y \<le> 0) (insertionSort (Less IntComparator) [3, 1, 2])"
proof -
  have srt: "insertionSort (Less IntComparator) [3, 1, 2] = [1, 2, 3]"
    by (simp add: insertionSort_def Less_def IntComparator_def)
  have cap: "16 * int (length [3, 1, 2 :: int]) \<le> maxAlloc"
    by (simp add: maxAlloc_def)
  show ?thesis
    using sortContract_insertionSort [where 'a = int] threeWay_IntComparator cap
      Sorted_buffers_then_replays
      [where sort_Sort = insertionSort and cmp = IntComparator and xs = "[3, 1, 2]"
         and m = 1 and sort_Ints = insertionSort and buf = "[]" and t = 0 and x = 0
         and ys = "[]" and 'w = unit
         and down = "TerminalStage (probe 0) [] :: (int, unit, int call list) stage"]
    by (simp add: srt)
qed

section \<open>Reduce\<close>

text \<open>The terminal stage that Reduce builds.\<close>

definition reduceStage ::
  "('v option \<Rightarrow> 'v option \<Rightarrow> error + 'v option) \<Rightarrow> ('v option, 'v option \<times> bool) baseStage" where
  "reduceStage accumulator =
     newTerminalStage
       (\<lambda>t (result, hasElement).
          if \<not> hasElement then Inr (t, True)
          else bindR (accumulator result t) (\<lambda>r. Inr (r, hasElement)))
       []"

lemma reduceStage_fields [simp]:
  "beginFn (reduceStage accumulator) = (\<lambda>sz vars. Inr vars)"
  "actionFn (reduceStage accumulator) =
     (\<lambda>t (result, hasElement).
        if \<not> hasElement then Inr (t, True)
        else bindR (accumulator result t) (\<lambda>r. Inr (r, hasElement)))"
  "canFinishFn (reduceStage accumulator) = (\<lambda>vars. False)"
  "endFn (reduceStage accumulator) = (\<lambda>vars. vars)"
  by (simp_all add: reduceStage_def newTerminalStage_def defaultTerminalStage_def)

lemma Reduce_terminal:
  "Reduce accumulator s =
     returning (\<lambda>(result, hasElement). Inr (OfNullable result))
       (terminal s (TerminalStage (reduceStage accumulator) (None, False)))"
  by (simp add: Reduce_def reduceStage_def)

lemma slice_walk_reduce:
  "slice_walk (TerminalStage (reduceStage (\<lambda>a b. Inr (g a b))) (r, True)
                 :: ('v option, 'w, 'v option \<times> bool) stage) xs =
     Inr (TerminalStage (reduceStage (\<lambda>a b. Inr (g a b))) (foldl g r xs, True), [])"
  by (induction xs arbitrary: r) simp_all

text \<open>
  C5, as the claim states it, fails: a combiner that returns \<^verbatim>\<open>nil\<close> makes the fold of
  the two elements 1 and 2 \<^verbatim>\<open>nil\<close>, and Reduce returns the absent optional although
  the source delivered elements.
\<close>

theorem Reduce_nil_fold_is_absent:
  "Reduce (\<lambda>a b. Inr None) (newHead (it [Some 1, Some 2]) :: (int option, unit, int option \<times> bool) stream)
     = Some (Inr Empty)"
  by (simp add: Reduce_terminal returning_def terminal_slice [of _ "[Some 1, Some 2]"])

text \<open>
  C5, amended. Over a slice source: with no element Reduce returns the absent optional,
  whatever the combiner; with at least one element and a combiner \<open>g\<close> that does not
  panic it returns the left-to-right fold seeded with the first element, wrapped as a
  possibly-\<^verbatim>\<open>nil\<close> value (present when the fold is not \<^verbatim>\<open>nil\<close>, absent when it is); over
  the single element 5 it returns the present optional of 5 for every combiner, also
  one that panics on every call, so the combiner is not called.
\<close>

theorem Reduce_fold:
  "Reduce accumulator (newHead (it []) :: ('v option, 'w, 'v option \<times> bool) stream)
     = Some (Inr Empty) \<and>
   Reduce (\<lambda>a b. Inr (g a b)) (newHead (it (x # xs)) :: ('v option, 'w, 'v option \<times> bool) stream)
     = Some (Inr (OfNullable (foldl g x xs))) \<and>
   Reduce combiner (newHead (it [Some 5]) :: (int option, 'w, int option \<times> bool) stream)
     = Some (Inr (Present 5)) \<and>
   Reduce (\<lambda>a b. Inl CallerPanic) (newHead (it [Some 5]) :: (int option, 'w, int option \<times> bool) stream)
     = Some (Inr (Present 5))"
  by (simp add: Reduce_terminal returning_def terminal_slice [of _ "[]"]
      terminal_slice [of _ "x # xs"] terminal_slice [of _ "[Some 5]"] slice_walk_reduce)

section \<open>The order of calls in a walk\<close>

text \<open>\<open>NextEach src j\<close> pulls \<open>j\<close> elements from a source, one \<^verbatim>\<open>Next\<close> after the other.\<close>

fun NextEach :: "'a iterator \<Rightarrow> nat \<Rightarrow> error + ('a list \<times> 'a iterator)" where
  "NextEach src 0 = Inr ([], src)"
| "NextEach src (Suc j) =
     bindR (Next src)
       (\<lambda>(x, src'). bindR (NextEach src' j) (\<lambda>(xs, src''). Inr (x # xs, src'')))"

lemma count_list_step_calls [simp]:
  "count_list (concat (map step_calls xs)) EndCall = 0"
  by (induction xs) (simp_all add: step_calls_def)

lemma terminal_loop_shape:
  assumes "terminal_loop stage src calls0 = Some y"
  shows "\<forall>stage' src' calls. y = Inr (stage', src', calls) \<longrightarrow>
     (\<exists>xs fin.
        calls = calls0 @ concat (map step_calls xs) @ fin \<and>
        (fin = [HasNextCall False] \<and> \<not> HasNext src' \<or>
         fin = [HasNextCall True, CanFinishCall True] \<and> HasNext src' \<and> CanFinish stage') \<and>
        AcceptEach stage xs = Inr stage' \<and>
        NextEach src (length xs) = Inr (xs, src') \<and>
        (\<forall>j<length xs. \<exists>stj. AcceptEach stage (take j xs) = Inr stj \<and> \<not> CanFinish stj))"
  using assms
proof (induction stage src calls0 y rule: terminal_loop.raw_induct [rotated, consumes 1])
  case (1 loop stage src calls0 y)
  show ?case
  proof (cases "HasNext src")
    case False
    with 1(2) have y: "y = Inr (stage, src, calls0 @ [HasNextCall False])" by simp
    show ?thesis
    proof (intro allI impI)
      fix stage' src' calls
      assume "y = Inr (stage', src', calls)"
      with y have e: "stage' = stage" "src' = src" "calls = calls0 @ [HasNextCall False]"
        by simp_all
      show "\<exists>xs fin.
        calls = calls0 @ concat (map step_calls xs) @ fin \<and>
        (fin = [HasNextCall False] \<and> \<not> HasNext src' \<or>
         fin = [HasNextCall True, CanFinishCall True] \<and> HasNext src' \<and> CanFinish stage') \<and>
        AcceptEach stage xs = Inr stage' \<and>
        NextEach src (length xs) = Inr (xs, src') \<and>
        (\<forall>j<length xs. \<exists>stj. AcceptEach stage (take j xs) = Inr stj \<and> \<not> CanFinish stj)"
        using e False
        by (intro exI [of _ "[]"] exI [of _ "[HasNextCall False]"]) simp
    qed
  next
    case hn: True
    show ?thesis
    proof (cases "CanFinish stage")
      case True
      with 1(2) hn have y: "y = Inr (stage, src, calls0 @ [HasNextCall True, CanFinishCall True])"
        by simp
      show ?thesis
      proof (intro allI impI)
        fix stage' src' calls
        assume "y = Inr (stage', src', calls)"
        with y have e: "stage' = stage" "src' = src"
          "calls = calls0 @ [HasNextCall True, CanFinishCall True]"
          by simp_all
        show "\<exists>xs fin.
          calls = calls0 @ concat (map step_calls xs) @ fin \<and>
          (fin = [HasNextCall False] \<and> \<not> HasNext src' \<or>
           fin = [HasNextCall True, CanFinishCall True] \<and> HasNext src' \<and> CanFinish stage') \<and>
          AcceptEach stage xs = Inr stage' \<and>
          NextEach src (length xs) = Inr (xs, src') \<and>
          (\<forall>j<length xs. \<exists>stj. AcceptEach stage (take j xs) = Inr stj \<and> \<not> CanFinish stj)"
          using e hn True
          by (intro exI [of _ "[]"] exI [of _ "[HasNextCall True, CanFinishCall True]"]) simp
      qed
    next
      case cf: False
      show ?thesis
      proof (cases "Next src")
        case (Inl e)
        with 1(2) hn cf show ?thesis by auto
      next
        case nx: (Inr p)
        obtain x src1 where p: "p = (x, src1)" by (cases p)
        show ?thesis
        proof (cases "Accept stage x")
          case (Inl e)
          with 1(2) hn cf nx p show ?thesis by auto
        next
          case ac: (Inr stage1)
          from 1(2) hn cf nx p ac
          have rec: "loop stage1 src1 (calls0 @ step_calls x) = Some y"
            by (simp add: step_calls_def)
          note IH = 1(1) [OF rec]
          show ?thesis
          proof (intro allI impI)
            fix stage' src' calls
            assume "y = Inr (stage', src', calls)"
            with IH obtain xs fin where
              c: "calls = (calls0 @ step_calls x) @ concat (map step_calls xs) @ fin"
              and f: "fin = [HasNextCall False] \<and> \<not> HasNext src' \<or>
                 fin = [HasNextCall True, CanFinishCall True] \<and> HasNext src' \<and> CanFinish stage'"
              and a: "AcceptEach stage1 xs = Inr stage'"
              and n: "NextEach src1 (length xs) = Inr (xs, src')"
              and j: "\<forall>j<length xs. \<exists>stj. AcceptEach stage1 (take j xs) = Inr stj \<and> \<not> CanFinish stj"
              by blast
            have j': "\<exists>stj. AcceptEach stage (take k (x # xs)) = Inr stj \<and> \<not> CanFinish stj"
              if "k < length (x # xs)" for k
            proof (cases k)
              case 0
              then show ?thesis using cf by simp
            next
              case (Suc k')
              with that j ac show ?thesis by simp
            qed
            show "\<exists>xs fin.
              calls = calls0 @ concat (map step_calls xs) @ fin \<and>
              (fin = [HasNextCall False] \<and> \<not> HasNext src' \<or>
               fin = [HasNextCall True, CanFinishCall True] \<and> HasNext src' \<and> CanFinish stage') \<and>
              AcceptEach stage xs = Inr stage' \<and>
              NextEach src (length xs) = Inr (xs, src') \<and>
              (\<forall>j<length xs. \<exists>stj. AcceptEach stage (take j xs) = Inr stj \<and> \<not> CanFinish stj)"
              using c f a n j' ac nx p
              by (intro exI [of _ "x # xs"] exI [of _ fin]) simp
          qed
        qed
      qed
    qed
  qed
qed

text \<open>
  C1. Whenever the walk of a pipeline \<open>s\<close> with a terminal stage \<open>ts\<close> returns, the
  calls it made are, in order: the size query on the source and Begin on the composed
  stage \<open>wrapStage s ts\<close> with that size; then, for each element \<open>x\<close> of some list \<open>xs\<close>,
  HasNext answering true, CanFinish answering false, Next returning \<open>x\<close> and Accept of
  \<open>x\<close>; then either HasNext answering false, or HasNext answering true and CanFinish
  answering true; and last End, the only End among the calls. The elements \<open>xs\<close> are
  what successive \<^verbatim>\<open>Next\<close> calls return from the source, the composed stage could not
  finish before any of them, and the stage that the walk returns is the result of
  Begin, which did not panic, these Accepts and End. On a slice source the walk always
  returns.
\<close>

theorem terminal_call_order:
  "(\<forall>stage' src' calls.
      terminal s ts = Some (Inr (stage', src', calls)) \<longrightarrow>
      (\<exists>xs fin begun stage1.
         calls = [GetSizeIfKnownCall (GetSizeIfKnown (source s)),
                  BeginCall (GetSizeIfKnown (source s))]
                   @ concat (map step_calls xs) @ fin @ [EndCall] \<and>
         (fin = [HasNextCall False] \<and> \<not> HasNext src' \<or>
          fin = [HasNextCall True, CanFinishCall True] \<and> HasNext src' \<and> CanFinish stage1) \<and>
         NextEach (source s) (length xs) = Inr (xs, src') \<and>
         Begin (wrapStage s ts) (GetSizeIfKnown (source s)) = Inr begun \<and>
         AcceptEach begun xs = Inr stage1 \<and>
         (\<forall>j<length xs.
            \<exists>stj. AcceptEach begun (take j xs) = Inr stj \<and> \<not> CanFinish stj) \<and>
         End stage1 = Inr stage' \<and>
         count_list calls EndCall = 1)) \<and>
   (\<forall>elements. source s = it elements \<longrightarrow> terminal s ts \<noteq> None)"
proof (intro conjI allI impI)
  fix stage' src' calls
  assume run: "terminal s ts = Some (Inr (stage', src', calls))"
  let ?n = "GetSizeIfKnown (source s)"
  let ?c0 = "[GetSizeIfKnownCall ?n, BeginCall ?n]"
  obtain begun where b: "Begin (wrapStage s ts) ?n = Inr begun"
    using run by (cases "Begin (wrapStage s ts) ?n") (simp_all add: terminal_def Let_def)
  obtain y where y: "terminal_loop begun (source s) ?c0 = Some y"
    using run b
    by (cases "terminal_loop begun (source s) ?c0") (simp_all add: terminal_def Let_def)
  obtain stage1 calls1 where
    y1: "y = Inr (stage1, src', calls1)" and e: "End stage1 = Inr stage'"
    and c: "calls = calls1 @ [EndCall]"
    using run y b by (auto simp: terminal_def Let_def split: sum.splits prod.splits)
  from terminal_loop_shape [OF y] y1 obtain xs fin where
    c1: "calls1 = ?c0 @ concat (map step_calls xs) @ fin"
    and f: "fin = [HasNextCall False] \<and> \<not> HasNext src' \<or>
         fin = [HasNextCall True, CanFinishCall True] \<and> HasNext src' \<and> CanFinish stage1"
    and a: "AcceptEach begun xs = Inr stage1"
    and n: "NextEach (source s) (length xs) = Inr (xs, src')"
    and j: "\<forall>j<length xs. \<exists>stj. AcceptEach begun (take j xs) = Inr stj \<and> \<not> CanFinish stj"
    by blast
  have cnt: "count_list calls EndCall = 1"
    using f by (auto simp: c c1)
  show "\<exists>xs fin begun stage1.
         calls = ?c0 @ concat (map step_calls xs) @ fin @ [EndCall] \<and>
         (fin = [HasNextCall False] \<and> \<not> HasNext src' \<or>
          fin = [HasNextCall True, CanFinishCall True] \<and> HasNext src' \<and> CanFinish stage1) \<and>
         NextEach (source s) (length xs) = Inr (xs, src') \<and>
         Begin (wrapStage s ts) ?n = Inr begun \<and>
         AcceptEach begun xs = Inr stage1 \<and>
         (\<forall>j<length xs. \<exists>stj. AcceptEach begun (take j xs) = Inr stj \<and> \<not> CanFinish stj) \<and>
         End stage1 = Inr stage' \<and>
         count_list calls EndCall = 1"
    using c c1 f n a j e cnt b
    by (intro exI [of _ xs] exI [of _ fin] exI [of _ begun] exI [of _ stage1]) simp
next
  fix elements
  assume "source s = it elements"
  then show "terminal s ts \<noteq> None"
    by (simp add: terminal_slice split: sum.splits prod.splits)
qed

text \<open>
  Limit 2 then ToSlice over the slice 7, 8, 9: the walk returns, and its calls have
  the stated shape.
\<close>

theorem terminal_call_order_witness:
  "\<exists>stage' src' calls.
     terminal (Limit 2 (newHead (it [7, 8, 9 :: int])) :: (int, unit, int list option) stream)
        (TerminalStage toSliceStage None) = Some (Inr (stage', src', calls)) \<and>
     calls = [GetSizeIfKnownCall 3, BeginCall 3,
              HasNextCall True, CanFinishCall False, NextCall 7, AcceptCall 7,
              HasNextCall True, CanFinishCall False, NextCall 8, AcceptCall 8,
              HasNextCall True, CanFinishCall True, EndCall] \<and>
     (\<exists>xs fin. calls = [GetSizeIfKnownCall 3, BeginCall 3]
                   @ concat (map step_calls xs) @ fin @ [EndCall]) \<and>
     count_list calls EndCall = 1"
proof -
  let ?s = "Limit 2 (newHead (it [7, 8, 9 :: int])) :: (int, unit, int list option) stream"
  let ?ts = "TerminalStage toSliceStage None :: (int, unit, int list option) stage"
  have run: "terminal ?s ?ts =
      Some (Inr (LimitStage 2 2 (TerminalStage toSliceStage (Some [7, 8])),
                 SliceIterator 2 3 [7, 8, 9],
                 [GetSizeIfKnownCall 3, BeginCall 3,
                  HasNextCall True, CanFinishCall False, NextCall 7, AcceptCall 7,
                  HasNextCall True, CanFinishCall False, NextCall 8, AcceptCall 8,
                  HasNextCall True, CanFinishCall True, EndCall]))"
    by (simp add: terminal_slice [of _ "[7, 8, 9]"] step_calls_def exit_calls_def
        toSliceStage_begin_in_range maxAlloc_def)
  let ?calls = "[GetSizeIfKnownCall 3, BeginCall 3,
      HasNextCall True, CanFinishCall False, NextCall 7, AcceptCall 7,
      HasNextCall True, CanFinishCall False, NextCall 8, AcceptCall 8,
      HasNextCall True, CanFinishCall True, EndCall] :: int call list"
  from terminal_call_order [of ?s ?ts] run
  obtain xs fin where
    "?calls
     = [GetSizeIfKnownCall (GetSizeIfKnown (source ?s)), BeginCall (GetSizeIfKnown (source ?s))]
         @ concat (map step_calls xs) @ fin @ [EndCall]"
    by blast
  then have "\<exists>xs fin. ?calls
     = [GetSizeIfKnownCall 3, BeginCall 3] @ concat (map step_calls xs) @ fin @ [EndCall]"
    by (auto simp: it_def)
  with run show ?thesis by simp
qed

section \<open>Building a pipeline does not touch the source\<close>

fun headSource :: "('a, 'w, 't) stream \<Rightarrow> 'a iterator" where
  "headSource (Head src) = src"
| "headSource (Node src prev wrap) = headSource prev"

lemma headSource_simps [simp]:
  "headSource (newHead src) = src"
  "headSource (newNode prev wrap) = headSource prev"
  "headSource (Filter test s) = headSource s"
  "headSource (Map f s) = headSource s"
  "headSource (FlatMap flatten s) = headSource s"
  "headSource (Peek consumer w s) = headSource s"
  "headSource (Distinct distincter s) = headSource s"
  "headSource (Sorted sort_Sort comparator s) = headSource s"
  "headSource (Limit maxSize s) = headSource s"
  "headSource (Skip n s) = headSource s"
  by (simp_all add: newHead_def newNode_def Filter_def Map_def FlatMap_def Peek_def
      Distinct_def Sorted_def Limit_def Skip_def)

lemma pipeline_source: "pipeline s \<Longrightarrow> source s = headSource s"
  by (induction rule: pipeline.induct) simp_all

text \<open>
  C7. Each of the eight operations returns a new node that holds the previous node,
  a \<^verbatim>\<open>wrap\<close> function and the source of the previous node, in the state it was in: no
  operation calls \<^verbatim>\<open>Next\<close> or \<^verbatim>\<open>HasNext\<close>, which occur only in the loop of \<^verbatim>\<open>terminal\<close>.
  So the source of any pipeline built by these operations is the source its head was
  made with, untouched.
\<close>

theorem operations_are_lazy:
  "Filter test s = Node (source s) s (\<lambda>down. FilterStage test down) \<and>
   Map f s = Node (source s) s (\<lambda>down. MapStage f down) \<and>
   FlatMap flatten s = Node (source s) s (\<lambda>down. FlatMapStage flatten down) \<and>
   Peek consumer w s = Node (source s) s (\<lambda>down. PeekStage consumer w down) \<and>
   Distinct distincter s = Node (source s) s (\<lambda>down. DistinctStage distincter None down) \<and>
   Sorted sort_Sort comparator s =
     Node (source s) s (\<lambda>down. SortedStage sort_Sort comparator [] down) \<and>
   Limit maxSize s = Node (source s) s (\<lambda>down. LimitStage maxSize 0 down) \<and>
   Skip n s = Node (source s) s (\<lambda>down. SkipStage n 0 down) \<and>
   (pipeline s \<longrightarrow> source s = headSource s)"
  by (simp add: Filter_def Map_def FlatMap_def Peek_def Distinct_def Sorted_def Limit_def
      Skip_def newNode_def pipeline_source)

text \<open>A Filter and Map chain over the slice 1, 2, 3 still holds the slice iterator at 0.\<close>

theorem operations_are_lazy_witness:
  "pipeline (Map (\<lambda>x. x + 1) (Filter (\<lambda>x. 1 < x) (newHead (it [1, 2, 3 :: int])))
      :: (int, unit, unit) stream) \<and>
   source (Map (\<lambda>x. x + 1) (Filter (\<lambda>x. 1 < x) (newHead (it [1, 2, 3 :: int])))
      :: (int, unit, unit) stream) = SliceIterator 0 3 [1, 2, 3]"
proof -
  let ?p = "Map (\<lambda>x. x + 1) (Filter (\<lambda>x. 1 < x) (newHead (it [1, 2, 3 :: int])))
      :: (int, unit, unit) stream"
  have p: "pipeline ?p"
    by (intro pipeline.intros)
  have h: "headSource ?p = SliceIterator 0 3 [1, 2, 3]"
    by (simp add: it_def)
  from operations_are_lazy [where s = ?p, THEN conjunct2, THEN conjunct2, THEN conjunct2,
      THEN conjunct2, THEN conjunct2, THEN conjunct2, THEN conjunct2, THEN conjunct2] p h
  have "source ?p = SliceIterator 0 3 [1, 2, 3]"
    by simp
  with p show ?thesis by simp
qed

section \<open>The terminal stage at the end of a chain\<close>

text \<open>The closure record of the terminal stage at the end of a chain.\<close>

primrec terminalBase :: "('a, 'w, 't) stage \<Rightarrow> ('a, 't) baseStage" where
  "terminalBase (TerminalStage b vars) = b"
| "terminalBase (FilterStage test down) = terminalBase down"
| "terminalBase (MapStage f down) = terminalBase down"
| "terminalBase (FlatMapStage flatten down) = terminalBase down"
| "terminalBase (PeekStage consumer w down) = terminalBase down"
| "terminalBase (DistinctStage distincter seen down) = terminalBase down"
| "terminalBase (SortedStage sort_Sort comparator list down) = terminalBase down"
| "terminalBase (LimitStage maxSize count down) = terminalBase down"
| "terminalBase (SkipStage n count down) = terminalBase down"

lemma terminalBase_Begin:
  "Begin st sz = Inr st' \<Longrightarrow> terminalBase st' = terminalBase st"
  by (induction st arbitrary: sz st') (auto simp: bindR_Inr_iff)

lemma terminalVars_Begin:
  "Begin st sz = Inr st' \<Longrightarrow>
     \<exists>m. beginFn (terminalBase st) m (terminalVars st) = Inr (terminalVars st')"
  by (induction st arbitrary: sz st') (auto simp: bindR_Inr_iff)

lemma terminalBase_wrapStage [simp]:
  "pipeline s \<Longrightarrow> terminalBase (wrapStage s st) = terminalBase st"
  by (induction arbitrary: st rule: pipeline.induct) simp_all

lemma terminalVars_wrapStage [simp]:
  "pipeline s \<Longrightarrow> terminalVars (wrapStage s st) = terminalVars st"
  by (induction arbitrary: st rule: pipeline.induct) simp_all

section \<open>A second terminal operation after the source is exhausted\<close>

text \<open>
  C9. The stage of \<^verbatim>\<open>Skip(n)\<close> lowers a known size hint by \<open>n\<close> and lifts a
  negative difference to 0, but it does not look at the sign of \<open>n\<close>: behind
  \<^verbatim>\<open>Skip(-(1<<62))\<close> the hint 3 of a slice of three elements becomes
  \<open>3 + 2 ^ 62\<close>, while Accept passes every element on. Count takes no notice of the
  hint: over the slice 1, 2, 3 it returns 3 and leaves the slice iterator at 3 of 3,
  where HasNext answers false. ToSlice on the pipeline with the iterator in that state
  makes its slice with the hint as capacity, which \<^verbatim>\<open>make\<close> refuses, so that the
  second terminal operation panics in Begin, before the first HasNext, and returns no
  slice. Without the Skip stage the same second ToSlice returns the empty slice.
\<close>

theorem rerun_behind_negative_Skip_panics:
  "Count (Skip (- (2 ^ 62)) (newHead (it [1, 2, 3])) :: (int, unit, int) stream)
     = Some (Inr 3) \<and>
   terminal (Skip (- (2 ^ 62)) (newHead (it [1, 2, 3])) :: (int, unit, int) stream)
       (TerminalStage (newTerminalStage (\<lambda>t result. Inr (result + 1)) []) 0)
     = Some (Inr (SkipStage (- (2 ^ 62)) 3
                    (TerminalStage (newTerminalStage (\<lambda>t result. Inr (result + 1)) []) 3),
                  SliceIterator 3 3 [1, 2, 3],
                  [GetSizeIfKnownCall 3, BeginCall 3] @ step_calls 1 @ step_calls 2
                    @ step_calls 3 @ [HasNextCall False, EndCall])) \<and>
   HasNext (SliceIterator 3 3 [1, 2, 3 :: int]) = False \<and>
   Begin (wrapStage (Skip (- (2 ^ 62)) (newHead (SliceIterator 3 3 [1, 2, 3]))
                       :: (int, unit, int list option) stream)
            (TerminalStage toSliceStage None)) 3
     = Inl MakeSliceCapOutOfRange \<and>
   ToSlice (Skip (- (2 ^ 62)) (newHead (SliceIterator 3 3 [1, 2, 3]))
              :: (int, unit, int list option) stream)
     = Some (Inl MakeSliceCapOutOfRange) \<and>
   ToSlice (newHead (SliceIterator 3 3 [1, 2, 3]) :: (int, unit, int list option) stream)
     = Some (Inr [])"
proof -
  have w: "wrap64 4611686018427387907 = 4611686018427387907"
    by (simp add: wrap64_def signed_take_bit_int_eq_self)
  have first: "terminal (Skip (- (2 ^ 62)) (newHead (it [1, 2, 3])) :: (int, unit, int) stream)
       (TerminalStage (newTerminalStage (\<lambda>t result. Inr (result + 1)) []) 0)
     = Some (Inr (SkipStage (- (2 ^ 62)) 3
                    (TerminalStage (newTerminalStage (\<lambda>t result. Inr (result + 1)) []) 3),
                  SliceIterator 3 3 [1, 2, 3],
                  [GetSizeIfKnownCall 3, BeginCall 3] @ step_calls 1 @ step_calls 2
                    @ step_calls 3 @ [HasNextCall False, EndCall]))"
    by (simp add: terminal_slice [of _ "[1, 2, 3]"] newTerminalStage_def
        defaultTerminalStage_def exit_calls_def)
  have bg: "Begin (wrapStage (Skip (- (2 ^ 62)) (newHead (SliceIterator 3 3 [1, 2, 3]))
                       :: (int, unit, int list option) stream)
            (TerminalStage toSliceStage None)) 3
     = Inl MakeSliceCapOutOfRange"
    by (simp add: Skip_def w toSliceStage_begin makeSlice_def maxAlloc_def)
  have second: "ToSlice (Skip (- (2 ^ 62)) (newHead (SliceIterator 3 3 [1, 2, 3]))
              :: (int, unit, int list option) stream)
     = Some (Inl MakeSliceCapOutOfRange)"
    using bg by (simp add: ToSlice_terminal terminal_def)
  have plain: "ToSlice (newHead (SliceIterator 3 3 [1, 2, 3])
                 :: (int, unit, int list option) stream) = Some (Inr [])"
    by (subst ToSlice_terminal, subst terminal_def, subst terminal_loop.simps)
      (simp add: newHead_def toSliceStage_begin makeSlice_def maxAlloc_def)
  show ?thesis
    using first second bg plain by (simp add: Count_def ReduceWith_def returning_def)
qed

section \<open>Walks that deliver nothing to the terminal stage\<close>

text \<open>
  The same chain of stages with another \<^verbatim>\<open>action\<close> at its terminal stage. With an
  action that panics on every element, a call that returns has not reached the
  terminal stage, and the chain with any other action does the same.
\<close>

primrec withAction ::
  "('a \<Rightarrow> 't \<Rightarrow> error + 't) \<Rightarrow> ('a, 'w, 't) stage \<Rightarrow> ('a, 'w, 't) stage" where
  "withAction a (TerminalStage b vars) = TerminalStage (b\<lparr>actionFn := a\<rparr>) vars"
| "withAction a (FilterStage test down) = FilterStage test (withAction a down)"
| "withAction a (MapStage f down) = MapStage f (withAction a down)"
| "withAction a (FlatMapStage flatten down) = FlatMapStage flatten (withAction a down)"
| "withAction a (PeekStage consumer w down) = PeekStage consumer w (withAction a down)"
| "withAction a (DistinctStage distincter seen down) =
     DistinctStage distincter seen (withAction a down)"
| "withAction a (SortedStage sort_Sort comparator list down) =
     SortedStage sort_Sort comparator list (withAction a down)"
| "withAction a (LimitStage maxSize count down) = LimitStage maxSize count (withAction a down)"
| "withAction a (SkipStage n count down) = SkipStage n count (withAction a down)"

lemma Begin_withAction:
  "Begin (withAction a st) sz = bindR (Begin st sz) (\<lambda>d. Inr (withAction a d))"
proof (induction st arbitrary: sz)
  case (TerminalStage b vars)
  show ?case by (cases "beginFn b sz vars") simp_all
next
  case (FilterStage test down)
  then show ?case by (cases "Begin down unkonwnSize") simp_all
next
  case (MapStage f down)
  then show ?case by (cases "Begin down sz") simp_all
next
  case (FlatMapStage flatten down)
  then show ?case by (cases "Begin down unkonwnSize") simp_all
next
  case (PeekStage consumer w down)
  then show ?case by (cases "Begin down sz") simp_all
next
  case (DistinctStage distincter seen down)
  then show ?case by (cases "Begin down unkonwnSize") simp_all
next
  case (SortedStage sort_Sort comparator list down)
  then show ?case
    by (cases "makeSlice sz :: error + 'a list"; cases "Begin down sz") simp_all
next
  case (LimitStage maxSize count down)
  then show ?case
    by (cases "Begin down (if sz > 0 \<and> sz > maxSize then maxSize else sz)") simp_all
next
  case (SkipStage n count down)
  then show ?case
    by (cases "Begin down (if sz > 0 then (if wrap64 (sz - n) < 0 then 0 else wrap64 (sz - n))
                           else sz)") simp_all
qed

lemma Begin_panicking_action:
  "Begin (withAction a st) sz = Inr r \<Longrightarrow>
     \<exists>st'. Begin st sz = Inr st' \<and> r = withAction a st'"
  by (auto simp: Begin_withAction bindR_Inr_iff)

lemma CanFinish_withAction [simp]: "CanFinish (withAction a st) = CanFinish st"
  by (induction st) simp_all

lemma terminalVars_withAction [simp]: "terminalVars (withAction a st) = terminalVars st"
  by (induction st) simp_all

lemma Accept_panicking_action:
  "\<forall>r. Accept (withAction (\<lambda>t v. Inl e) st) t = Inr r \<longrightarrow>
     (\<exists>st'. Accept st t = Inr st' \<and> r = withAction (\<lambda>t v. Inl e) st' \<and>
            terminalVars st' = terminalVars st)"
  "\<forall>r. AcceptEach (withAction (\<lambda>t v. Inl e) st) ts = Inr r \<longrightarrow>
     (\<exists>st'. AcceptEach st ts = Inr st' \<and> r = withAction (\<lambda>t v. Inl e) st' \<and>
            terminalVars st' = terminalVars st)"
proof (induct st t and st ts rule: Accept_AcceptEach.induct)
  case (1 b vars t)
  show ?case by simp
next
  case (2 test down t)
  then show ?case by (cases "test t") (auto simp: bindR_Inr_iff)
next
  case (3 f down t)
  then show ?case by (auto simp: bindR_Inr_iff)
next
  case (4 flatten down t)
  then show ?case by (auto simp: bindR_Inr_iff)
next
  case (5 consumer w down t)
  then show ?case by (auto simp: bindR_Inr_iff)
next
  case (6 distincter down t)
  show ?case by simp
next
  case (7 distincter keys down t)
  then show ?case by (cases "distincter t \<in> keys") (auto simp: bindR_Inr_iff)
next
  case (8 sort_Sort comparator list down t)
  show ?case by simp
next
  case (9 maxSize count down t)
  then show ?case by (cases "count < maxSize") (auto simp: bindR_Inr_iff)
next
  case (10 n count down t)
  then show ?case by (cases "n \<le> count") (auto simp: bindR_Inr_iff)
next
  case (11 st)
  show ?case by simp
next
  case (12 st x xs)
  show ?case
  proof (intro allI impI)
    fix r
    assume "AcceptEach (withAction (\<lambda>t v. Inl e) st) (x # xs) = Inr r"
    then obtain r1 where
      a1: "Accept (withAction (\<lambda>t v. Inl e) st) x = Inr r1" and a2: "AcceptEach r1 xs = Inr r"
      by (auto simp: bindR_Inr_iff)
    from 12(1) a1 obtain st1 where
      s1: "Accept st x = Inr st1" "r1 = withAction (\<lambda>t v. Inl e) st1"
      "terminalVars st1 = terminalVars st"
      by blast
    from 12(2) [OF s1(1)] a2 s1(2) obtain st2 where
      "AcceptEach st1 xs = Inr st2" "r = withAction (\<lambda>t v. Inl e) st2"
      "terminalVars st2 = terminalVars st1"
      by blast
    with s1 show "\<exists>st'. AcceptEach st (x # xs) = Inr st' \<and> r = withAction (\<lambda>t v. Inl e) st' \<and>
            terminalVars st' = terminalVars st"
      by simp
  qed
qed

lemma terminalBase_Accept_AcceptEach:
  "\<forall>st'. Accept st t = Inr st' \<longrightarrow> terminalBase st' = terminalBase st"
  "\<forall>st'. AcceptEach st ts = Inr st' \<longrightarrow> terminalBase st' = terminalBase st"
proof (induct st t and st ts rule: Accept_AcceptEach.induct)
  case (1 b vars t)
  then show ?case by (cases "actionFn b t vars") auto
next
  case (2 test down t)
  then show ?case by (cases "Accept down t") simp_all
next
  case (3 f down t)
  then show ?case by (cases "Accept down (f t)") simp_all
next
  case (4 flatten down t)
  then show ?case by (cases "AcceptEach down (flatten t)") simp_all
next
  case (5 consumer w down t)
  then show ?case by (cases "Accept down t") simp_all
next
  case (6 distincter down t)
  then show ?case by simp
next
  case (7 distincter keys down t)
  then show ?case by (cases "Accept down t") simp_all
next
  case (8 sort_Sort comparator list down t)
  then show ?case by auto
next
  case (9 maxSize count down t)
  then show ?case by (cases "Accept down t") simp_all
next
  case (10 n count down t)
  then show ?case by (cases "Accept down t") simp_all
next
  case (11 st)
  then show ?case by auto
next
  case (12 st x xs)
  then show ?case by (cases "Accept st x") simp_all
qed

lemma terminalBase_forward:
  "forward st ys = Inr st' \<Longrightarrow> terminalBase st' = terminalBase st"
proof (induction ys arbitrary: st)
  case Nil
  then show ?case by simp
next
  case (Cons y ys)
  show ?case
  proof (cases "CanFinish st")
    case True
    with Cons.prems show ?thesis by simp
  next
    case False
    with Cons.prems obtain st1 where a: "Accept st y = Inr st1" "forward st1 ys = Inr st'"
      by (auto simp: bindR_Inr_iff)
    from Cons.IH [OF a(2)] terminalBase_Accept_AcceptEach(1) [of st y] a(1)
    show ?thesis by simp
  qed
qed

lemma forward_panicking_action:
  "forward (withAction (\<lambda>t v. Inl e) st) ys = Inr r \<Longrightarrow>
     \<exists>st'. forward st ys = Inr st' \<and> r = withAction (\<lambda>t v. Inl e) st' \<and>
           terminalVars st' = terminalVars st"
proof (induction ys arbitrary: st r)
  case Nil
  then show ?case by auto
next
  case (Cons y ys)
  show ?case
  proof (cases "CanFinish st")
    case True
    with Cons.prems show ?thesis by auto
  next
    case False
    with Cons.prems obtain r1 where
      a1: "Accept (withAction (\<lambda>t v. Inl e) st) y = Inr r1" and a2: "forward r1 ys = Inr r"
      by (auto simp: bindR_Inr_iff)
    from Accept_panicking_action(1) [of e st y] a1 obtain st1 where
      s1: "Accept st y = Inr st1" "r1 = withAction (\<lambda>t v. Inl e) st1"
      "terminalVars st1 = terminalVars st"
      by blast
    from Cons.IH [of st1 r] a2 s1(2) obtain st2 where
      "forward st1 ys = Inr st2" "r = withAction (\<lambda>t v. Inl e) st2"
      "terminalVars st2 = terminalVars st1"
      by blast
    with s1 False show ?thesis by simp
  qed
qed

text \<open>A property of the terminal variables that \<^verbatim>\<open>begin\<close> and \<^verbatim>\<open>end\<close> of the terminal stage keep.\<close>

definition keeps :: "('t \<Rightarrow> bool) \<Rightarrow> ('a, 't) baseStage \<Rightarrow> bool" where
  "keeps I b =
     ((\<forall>m v v'. I v \<longrightarrow> beginFn b m v = Inr v' \<longrightarrow> I v') \<and> (\<forall>v. I v \<longrightarrow> I (endFn b v)))"

lemma keeps_Begin:
  "keeps I (terminalBase st) \<Longrightarrow> I (terminalVars st) \<Longrightarrow> Begin st sz = Inr st' \<Longrightarrow>
     I (terminalVars st')"
  using terminalVars_Begin [of st sz st'] unfolding keeps_def by blast

lemma End_panicking_action:
  "End (withAction (\<lambda>t v. Inl e) st) = Inr r \<Longrightarrow> keeps I (terminalBase st) \<Longrightarrow>
   I (terminalVars st) \<Longrightarrow>
     \<exists>st'. End st = Inr st' \<and> r = withAction (\<lambda>t v. Inl e) st' \<and> I (terminalVars st')"
proof (induction st arbitrary: r rule: End.induct)
  case (1 b vars)
  then show ?case by (auto simp: keeps_def)
next
  case (2 test down)
  from 2(2) obtain r1 where "End (withAction (\<lambda>t v. Inl e) down) = Inr r1" "r = FilterStage test r1"
    by (auto simp: bindR_Inr_iff)
  with 2(1) [of r1] 2(3) 2(4) show ?case by auto
next
  case (3 f down)
  from 3(2) obtain r1 where "End (withAction (\<lambda>t v. Inl e) down) = Inr r1" "r = MapStage f r1"
    by (auto simp: bindR_Inr_iff)
  with 3(1) [of r1] 3(3) 3(4) show ?case by auto
next
  case (4 flatten down)
  from 4(2) obtain r1 where
    "End (withAction (\<lambda>t v. Inl e) down) = Inr r1" "r = FlatMapStage flatten r1"
    by (auto simp: bindR_Inr_iff)
  with 4(1) [of r1] 4(3) 4(4) show ?case by auto
next
  case (5 consumer w down)
  from 5(2) obtain r1 where
    "End (withAction (\<lambda>t v. Inl e) down) = Inr r1" "r = PeekStage consumer w r1"
    by (auto simp: bindR_Inr_iff)
  with 5(1) [of r1] 5(3) 5(4) show ?case by auto
next
  case (6 distincter seen down)
  from 6(2) obtain r1 where
    "End (withAction (\<lambda>t v. Inl e) down) = Inr r1" "r = DistinctStage distincter None r1"
    by (auto simp: bindR_Inr_iff)
  with 6(1) [of r1] 6(3) 6(4) show ?case by auto
next
  case (7 sort_Sort comparator list down)
  let ?ys = "sort_Sort (Less comparator) list"
  let ?n = "int (length ?ys)"
  from 7(2) obtain r0 r1 r2 where
    b: "Begin (withAction (\<lambda>t v. Inl e) down) ?n = Inr r0"
    and f: "forward r0 ?ys = Inr r1"
    and e: "End r1 = Inr r2" and r: "r = SortedStage sort_Sort comparator [] r2"
    by (auto simp: bindR_Inr_iff)
  from Begin_panicking_action [OF b] obtain d0 where
    d0: "Begin down ?n = Inr d0" "r0 = withAction (\<lambda>t v. Inl e) d0"
    by blast
  from forward_panicking_action [of e d0 ?ys r1] f d0(2) obtain d1 where
    d1: "forward d0 ?ys = Inr d1"
    "r1 = withAction (\<lambda>t v. Inl e) d1" "terminalVars d1 = terminalVars d0"
    by blast
  have k: "keeps I (terminalBase down)" using 7(3) by simp
  have "I (terminalVars down)" using 7(4) by simp
  with k have i1: "I (terminalVars d1)" using d1(3) keeps_Begin [OF _ _ d0(1)] by simp
  have b1: "terminalBase d1 = terminalBase down"
    using terminalBase_forward [OF d1(1)] terminalBase_Begin [OF d0(1)] by simp
  from 7(1) [OF d0(1) d1(1), of r2] e d1(2) k i1 b1 obtain d2 where
    "End d1 = Inr d2" "r2 = withAction (\<lambda>t v. Inl e) d2" "I (terminalVars d2)"
    by auto
  with d0(1) d1(1) r show ?case by simp
next
  case (8 maxSize count down)
  from 8(2) obtain r1 where
    "End (withAction (\<lambda>t v. Inl e) down) = Inr r1" "r = LimitStage maxSize count r1"
    by (auto simp: bindR_Inr_iff)
  with 8(1) [of r1] 8(3) 8(4) show ?case by auto
next
  case (9 n count down)
  from 9(2) obtain r1 where
    "End (withAction (\<lambda>t v. Inl e) down) = Inr r1" "r = SkipStage n count r1"
    by (auto simp: bindR_Inr_iff)
  with 9(1) [of r1] 9(3) 9(4) show ?case by auto
qed

lemma terminal_loop_panicking_action:
  assumes "terminal_loop stage src calls = Some y"
  shows "\<forall>st r src' calls'. stage = withAction (\<lambda>t v. Inl e) st \<longrightarrow> y = Inr (r, src', calls') \<longrightarrow>
     (\<exists>st'. terminal_loop st src calls = Some (Inr (st', src', calls')) \<and>
            r = withAction (\<lambda>t v. Inl e) st' \<and> terminalVars st' = terminalVars st \<and>
            terminalBase st' = terminalBase st)"
  using assms
proof (induction stage src calls y rule: terminal_loop.raw_induct [rotated, consumes 1])
  case (1 loop stage src calls y)
  show ?case
  proof (intro allI impI)
    fix st r src' calls'
    assume st: "stage = withAction (\<lambda>t v. Inl e) st" and y: "y = Inr (r, src', calls')"
    show "\<exists>st'. terminal_loop st src calls = Some (Inr (st', src', calls')) \<and>
            r = withAction (\<lambda>t v. Inl e) st' \<and> terminalVars st' = terminalVars st \<and>
            terminalBase st' = terminalBase st"
    proof (cases "HasNext src \<and> \<not> CanFinish st")
      case False
      with 1(2) st y have "r = stage" "src' = src"
        "calls' = calls @ (if HasNext src then [HasNextCall True, CanFinishCall True]
                           else [HasNextCall False])"
        by (auto split: if_splits)
      with False st show ?thesis
        by (subst terminal_loop.simps) auto
    next
      case True
      show ?thesis
      proof (cases "Next src")
        case (Inl e')
        with 1(2) True st y show ?thesis by simp
      next
        case nx: (Inr p)
        obtain x src1 where p: "p = (x, src1)" by (cases p)
        show ?thesis
        proof (cases "Accept stage x")
          case (Inl e')
          with 1(2) True st y nx p show ?thesis by simp
        next
          case ac: (Inr stage1)
          from 1(2) True st nx p ac
          have rec: "loop stage1 src1
              (calls @ [HasNextCall True, CanFinishCall False, NextCall x, AcceptCall x]) = Some y"
            by simp
          from Accept_panicking_action(1) [of e st x] ac st obtain st1 where
            s1: "Accept st x = Inr st1" "stage1 = withAction (\<lambda>t v. Inl e) st1"
            "terminalVars st1 = terminalVars st"
            by blast
          have b1: "terminalBase st1 = terminalBase st"
            using terminalBase_Accept_AcceptEach(1) [of st x] s1(1) by simp
          from 1(1) [OF rec] s1(2) y obtain st' where
            "terminal_loop st1 src1
               (calls @ [HasNextCall True, CanFinishCall False, NextCall x, AcceptCall x])
             = Some (Inr (st', src', calls'))"
            "r = withAction (\<lambda>t v. Inl e) st'" "terminalVars st' = terminalVars st1"
            "terminalBase st' = terminalBase st1"
            by blast
          with True nx p s1 b1 show ?thesis
            by (subst terminal_loop.simps) simp
        qed
      qed
    qed
  qed
qed

lemma wrapStage_withAction:
  "pipeline s \<Longrightarrow> wrapStage s (withAction a st) = withAction a (wrapStage s st)"
proof (induction arbitrary: st rule: pipeline.induct)
  case (pipeline_Head src)
  show ?case by simp
next
  case (pipeline_Filter s test)
  from pipeline_Filter.IH [of "FilterStage test st"] show ?case by simp
next
  case (pipeline_Map s f)
  from pipeline_Map.IH [of "MapStage f st"] show ?case by simp
next
  case (pipeline_FlatMap s flatten)
  from pipeline_FlatMap.IH [of "FlatMapStage flatten st"] show ?case by simp
next
  case (pipeline_Peek s consumer w)
  from pipeline_Peek.IH [of "PeekStage consumer w st"] show ?case by simp
next
  case (pipeline_Distinct s distincter)
  from pipeline_Distinct.IH [of "DistinctStage distincter None st"] show ?case by simp
next
  case (pipeline_Sorted s sort_Sort comparator)
  from pipeline_Sorted.IH [of "SortedStage sort_Sort comparator [] st"] show ?case by simp
next
  case (pipeline_Limit s maxSize)
  from pipeline_Limit.IH [of "LimitStage maxSize 0 st"] show ?case by simp
next
  case (pipeline_Skip s n)
  from pipeline_Skip.IH [of "SkipStage n 0 st"] show ?case by simp
qed

lemma terminal_panicking_action:
  assumes "pipeline s"
    and "terminal s (TerminalStage (b\<lparr>actionFn := (\<lambda>t v. Inl e)\<rparr>) vars) = Some (Inr (r, src', calls))"
    and "keeps I b" and "I vars"
  shows "\<exists>st'. terminal s (TerminalStage b vars) = Some (Inr (st', src', calls)) \<and>
     I (terminalVars st')"
proof -
  let ?n = "GetSizeIfKnown (source s)"
  let ?ts = "TerminalStage b vars :: ('a, 'b, 'c) stage"
  let ?c0 = "[GetSizeIfKnownCall ?n, BeginCall ?n]"
  have w: "wrapStage s (TerminalStage (b\<lparr>actionFn := (\<lambda>t v. Inl e)\<rparr>) vars)
      = withAction (\<lambda>t v. Inl e) (wrapStage s ?ts)"
    using wrapStage_withAction [OF assms(1), of "\<lambda>t v. Inl e" ?ts] by simp
  obtain r0 where r0: "Begin (withAction (\<lambda>t v. Inl e) (wrapStage s ?ts)) ?n = Inr r0"
    using assms(2)
    by (cases "Begin (withAction (\<lambda>t v. Inl e) (wrapStage s ?ts)) ?n")
       (simp_all add: terminal_def Let_def w)
  from Begin_panicking_action [OF r0] obtain st0 where
    st0: "Begin (wrapStage s ?ts) ?n = Inr st0" "r0 = withAction (\<lambda>t v. Inl e) st0"
    by blast
  obtain y where y: "terminal_loop (withAction (\<lambda>t v. Inl e) st0) (source s) ?c0 = Some y"
    using assms(2) r0 st0(2)
    by (cases "terminal_loop (withAction (\<lambda>t v. Inl e) st0) (source s) ?c0")
       (simp_all add: terminal_def Let_def w)
  obtain r1 calls1 where
    y1: "y = Inr (r1, src', calls1)" and e: "End r1 = Inr r" and c: "calls = calls1 @ [EndCall]"
    using assms(2) y r0 st0(2)
    by (auto simp: terminal_def Let_def w split: sum.splits prod.splits)
  from terminal_loop_panicking_action [OF y, of e] y1 obtain st1 where
    l: "terminal_loop st0 (source s) ?c0 = Some (Inr (st1, src', calls1))"
    and r1: "r1 = withAction (\<lambda>t v. Inl e) st1"
    and v1: "terminalVars st1 = terminalVars st0" and b1: "terminalBase st1 = terminalBase st0"
    by blast
  have tb: "terminalBase st0 = b"
    using assms(1) terminalBase_Begin [OF st0(1)] by simp
  have "I (terminalVars st0)"
    using keeps_Begin [OF _ _ st0(1), of I] assms(1) assms(3) assms(4) by simp
  with v1 have i1: "I (terminalVars st1)" by simp
  from End_panicking_action [of e st1 r I] e r1 i1 b1 tb assms(3) obtain st2 where
    "End st1 = Inr st2" "I (terminalVars st2)"
    by auto
  with l c st0(1) show ?thesis
    by (simp add: terminal_def Let_def)
qed

text \<open>The terminal stages of the three matching operations.\<close>

definition allMatchStage :: "('a \<Rightarrow> error + bool) \<Rightarrow> ('a, bool) baseStage" where
  "allMatchStage test =
     newTerminalStage (\<lambda>t result. bindR (test t) (\<lambda>b. Inr (if \<not> b then False else result)))
       [opt_canFinish (\<lambda>result. \<not> result)]"

definition noneMatchStage :: "('a \<Rightarrow> error + bool) \<Rightarrow> ('a, bool) baseStage" where
  "noneMatchStage test =
     newTerminalStage (\<lambda>t result. bindR (test t) (\<lambda>b. Inr (if b then False else result)))
       [opt_canFinish (\<lambda>result. \<not> result)]"

definition anyMatchStage :: "('a \<Rightarrow> error + bool) \<Rightarrow> ('a, bool) baseStage" where
  "anyMatchStage test =
     newTerminalStage (\<lambda>t result. bindR (test t) (\<lambda>b. Inr (if b then True else result)))
       [opt_canFinish (\<lambda>result. result)]"

lemma matchStage_panicking:
  "allMatchStage (\<lambda>t. Inl e) = (allMatchStage test)\<lparr>actionFn := (\<lambda>t v. Inl e)\<rparr>"
  "noneMatchStage (\<lambda>t. Inl e) = (noneMatchStage test)\<lparr>actionFn := (\<lambda>t v. Inl e)\<rparr>"
  "anyMatchStage (\<lambda>t. Inl e) = (anyMatchStage test)\<lparr>actionFn := (\<lambda>t v. Inl e)\<rparr>"
  by (simp_all add: allMatchStage_def noneMatchStage_def anyMatchStage_def newTerminalStage_def
      defaultTerminalStage_def opt_canFinish_def)

lemma matchStage_keeps:
  "keeps I (allMatchStage test)" "keeps I (noneMatchStage test)" "keeps I (anyMatchStage test)"
  by (simp_all add: keeps_def allMatchStage_def noneMatchStage_def anyMatchStage_def
      newTerminalStage_def defaultTerminalStage_def opt_canFinish_def)

lemma Match_terminal:
  "AllMatch test s = returning Inr (terminal s (TerminalStage (allMatchStage test) True))"
  "NoneMatch test s = returning Inr (terminal s (TerminalStage (noneMatchStage test) True))"
  "AnyMatch test s = returning Inr (terminal s (TerminalStage (anyMatchStage test) False))"
  by (simp_all add: AllMatch_def NoneMatch_def AnyMatch_def allMatchStage_def
      noneMatchStage_def anyMatchStage_def)

lemma returning_Inr_Some:
  "returning Inr r = Some (Inr v) \<Longrightarrow>
     \<exists>stage src calls. r = Some (Inr (stage, src, calls)) \<and> terminalVars stage = v"
  by (auto simp: returning_def split: option.splits sum.splits prod.splits)

lemma nothing_delivered:
  assumes "pipeline s"
    and "returning Inr (terminal s (TerminalStage (b\<lparr>actionFn := (\<lambda>t v. Inl e)\<rparr>) vars))
          = Some (Inr v)"
    and "keeps (\<lambda>x. x = vars) b"
  shows "returning Inr (terminal s (TerminalStage b vars)) = Some (Inr vars)"
proof -
  from returning_Inr_Some [OF assms(2)] obtain r src' calls where
    "terminal s (TerminalStage (b\<lparr>actionFn := (\<lambda>t v. Inl e)\<rparr>) vars) = Some (Inr (r, src', calls))"
    by blast
  from terminal_panicking_action [OF assms(1) this assms(3)] obtain st' where
    "terminal s (TerminalStage b vars) = Some (Inr (st', src', calls))" "terminalVars st' = vars"
    by auto
  then show ?thesis by (simp add: returning_def)
qed

text \<open>
  C10. A pipeline delivers no element to the terminal stage of a matching operation
  exactly when the operation, given a predicate that panics on every call, returns
  without a panic. For every pipeline of the eight operations, over any source: if
  AllMatch returns with the panicking predicate, then with every predicate it returns
  true; likewise NoneMatch returns true and AnyMatch returns false. The result is the
  same for every predicate, the panicking one included, so the predicate is not called.
\<close>

theorem matches_when_nothing_delivered:
  "(pipeline s \<and> AllMatch (\<lambda>t. Inl CallerPanic) s = Some (Inr b1) \<longrightarrow>
      AllMatch test s = Some (Inr True)) \<and>
   (pipeline s \<and> NoneMatch (\<lambda>t. Inl CallerPanic) s = Some (Inr b2) \<longrightarrow>
      NoneMatch test s = Some (Inr True)) \<and>
   (pipeline s \<and> AnyMatch (\<lambda>t. Inl CallerPanic) s = Some (Inr b3) \<longrightarrow>
      AnyMatch test s = Some (Inr False))"
proof (intro conjI impI)
  assume a: "pipeline s \<and> AllMatch (\<lambda>t. Inl CallerPanic) s = Some (Inr b1)"
  then have "returning Inr (terminal s
      (TerminalStage ((allMatchStage test)\<lparr>actionFn := (\<lambda>t v. Inl CallerPanic)\<rparr>) True))
      = Some (Inr b1)"
    by (simp add: Match_terminal matchStage_panicking(1) [of CallerPanic test])
  from nothing_delivered [OF _ this matchStage_keeps(1)] a
  show "AllMatch test s = Some (Inr True)"
    by (simp add: Match_terminal)
next
  assume a: "pipeline s \<and> NoneMatch (\<lambda>t. Inl CallerPanic) s = Some (Inr b2)"
  then have "returning Inr (terminal s
      (TerminalStage ((noneMatchStage test)\<lparr>actionFn := (\<lambda>t v. Inl CallerPanic)\<rparr>) True))
      = Some (Inr b2)"
    by (simp add: Match_terminal matchStage_panicking(2) [of CallerPanic test])
  from nothing_delivered [OF _ this matchStage_keeps(2)] a
  show "NoneMatch test s = Some (Inr True)"
    by (simp add: Match_terminal)
next
  assume a: "pipeline s \<and> AnyMatch (\<lambda>t. Inl CallerPanic) s = Some (Inr b3)"
  then have "returning Inr (terminal s
      (TerminalStage ((anyMatchStage test)\<lparr>actionFn := (\<lambda>t v. Inl CallerPanic)\<rparr>) False))
      = Some (Inr b3)"
    by (simp add: Match_terminal matchStage_panicking(3) [of CallerPanic test])
  from nothing_delivered [OF _ this matchStage_keeps(3)] a
  show "AnyMatch test s = Some (Inr False)"
    by (simp add: Match_terminal)
qed

text \<open>
  A Filter that lets nothing through over the slice 1, 2, 3, and Limit 0 over the
  endless seed source: the panicking predicate is not reached, so the matching
  operations return true, true and false for the predicate \<open>x > 10\<close>. Over the bare
  slice 1 the panicking predicate is reached.
\<close>

theorem matches_when_nothing_delivered_witness:
  "AllMatch (\<lambda>t. Inl CallerPanic) (Filter (\<lambda>x. False) (newHead (it [1, 2, 3]))
      :: (int, unit, bool) stream) = Some (Inr True) \<and>
   AllMatch (\<lambda>x. Inr (10 < x)) (Filter (\<lambda>x. False) (newHead (it [1, 2, 3]))
      :: (int, unit, bool) stream) = Some (Inr True) \<and>
   NoneMatch (\<lambda>x. Inr (10 < x)) (Filter (\<lambda>x. False) (newHead (it [1, 2, 3]))
      :: (int, unit, bool) stream) = Some (Inr True) \<and>
   AnyMatch (\<lambda>x. Inr (10 < x)) (Limit 0 (newHead (withSeed 0 (\<lambda>x. x + 1)))
      :: (int, unit, bool) stream) = Some (Inr False) \<and>
   AllMatch (\<lambda>t. Inl CallerPanic) (newHead (it [1]) :: (int, unit, bool) stream)
      = Some (Inl CallerPanic)"
proof -
  let ?p = "Filter (\<lambda>x. False) (newHead (it [1, 2, 3])) :: (int, unit, bool) stream"
  let ?q = "Limit 0 (newHead (withSeed 0 (\<lambda>x. x + 1))) :: (int, unit, bool) stream"
  have p: "pipeline ?p" "pipeline ?q"
    by (intro pipeline.intros)+
  have h1: "AllMatch (\<lambda>t. Inl CallerPanic) ?p = Some (Inr True)"
    by code_simp
  have h2: "NoneMatch (\<lambda>t. Inl CallerPanic) ?p = Some (Inr True)"
    by code_simp
  have h3: "AnyMatch (\<lambda>t. Inl CallerPanic) ?q = Some (Inr False)"
    by code_simp
  have h4: "AllMatch (\<lambda>t. Inl CallerPanic) (newHead (it [1]) :: (int, unit, bool) stream)
      = Some (Inl CallerPanic)"
    by code_simp
  note m = matches_when_nothing_delivered
  have "AllMatch (\<lambda>x. Inr (10 < x)) ?p = Some (Inr True)"
    using m [where s = ?p and ?b1.0 = True, THEN conjunct1] p(1) h1 by blast
  moreover have "NoneMatch (\<lambda>x. Inr (10 < x)) ?p = Some (Inr True)"
    using m [where s = ?p and ?b2.0 = True, THEN conjunct2, THEN conjunct1] p(1) h2 by blast
  moreover have "AnyMatch (\<lambda>x. Inr (10 < x)) ?q = Some (Inr False)"
    using m [where s = ?q and ?b3.0 = False, THEN conjunct2, THEN conjunct2] p(2) h3 by blast
  ultimately show ?thesis using h1 h4 by simp
qed

end
